theory Spec2Isabelle
  imports Main "HOL-Library.Word"
begin

unbundle bit_operations_syntax

section \<open>The on-chip-loader (OCL) flash driver\<close>

text \<open>
  A shallow embedding of the OCL flash driver (\<^verbatim>\<open>ocl_erase\<close>, \<^verbatim>\<open>ocl_write\<close>,
  \<^verbatim>\<open>ocl_probe\<close>, \<^verbatim>\<open>ocl_auto_probe\<close>, \<^verbatim>\<open>ocl_flash_bank_command\<close>).
  Unsigned 32-bit values are \<open>32 word\<close>; a C \<^verbatim>\<open>int\<close> is held as its two's-complement
  bit pattern in a \<open>32 word\<close> and read with \<open>sint\<close> where the code compares it as signed.
\<close>

type_synonym u8 = "8 word"
type_synonym u32 = "32 word"

subsection \<open>Declarations of the headers\<close>

text \<open>
  The return codes are macros of headers that are not part of the sources at hand. Each named
  code is a constructor; \<open>C_INT n\<close> is an \<^verbatim>\<open>int\<close> that is not one of the named codes, as in
  \<^verbatim>\<open>retval = f(...) != ERROR_OK\<close>, which assigns the value 1 of the comparison.
\<close>

datatype retval =
    ERROR_OK
  | ERROR_FAIL
  | ERROR_FLASH_BANK_INVALID
  | ERROR_FLASH_BANK_NOT_PROBED
  | ERROR_FLASH_OPERATION_FAILED
  | ERROR_TARGET_NOT_RUNNING
  | ERROR_TARGET_TIMEOUT
  | C_INT int

datatype target_state =
    TARGET_UNKNOWN | TARGET_RUNNING | TARGET_HALTED | TARGET_RESET | TARGET_DEBUG_RUNNING

text \<open>
  The opcodes, the response sentinel, the checksum seed (\<^verbatim>\<open>ocl.h\<close>) and the handshake bit
  (\<^verbatim>\<open>embeddedice.h\<close>) are macros whose values are not in the sources at hand: they are
  parameters of the model, and every theorem holds for all their values.
\<close>

record ocl_h =
  OCL_FLASH_BLOCK :: u32
  OCL_ERASE_BLOCK :: u32
  OCL_ERASE_ALL :: u32
  OCL_PROBE :: u32
  OCL_CMD_DONE :: u32
  OCL_CHKS_INIT :: u32
  EICE_COMM_CTRL_WBIT :: u32

text \<open>
  Modelled from the spec: \<^verbatim>\<open>struct flash_sector\<close> and \<^verbatim>\<open>struct flash_bank\<close> are declared
  in \<^verbatim>\<open>flash.h\<close>, which is missing. The fields are those of the spec's data model (base
  address, total size and sector count are u32; a sector has a u32 offset and size and two
  tri-states, for which the code stores -1). The sector count holds the 32 bits that the
  probe stores; the code uses it as an \<^verbatim>\<open>int\<close> (it bounds the \<^verbatim>\<open>int\<close> counter of the
  sector loop, and the \<^verbatim>\<open>int\<close> sector numbers of \<^verbatim>\<open>ocl_erase\<close> are compared with it), so
  where its sign matters it is read with \<open>sint\<close>. The state of the bank's target, which the
  code reads as \<^verbatim>\<open>bank->target->state\<close>, is a field of the bank.
\<close>

record flash_sector =
  sector_offset :: u32
  sector_size :: u32
  is_erased :: int
  is_protected :: int

record ocl_priv =
  buflen :: u32
  bufalign :: u32

record flash_bank =
  bank_base :: u32
  bank_size :: u32
  num_sectors :: u32
  sectors :: "flash_sector list"
  driver_priv :: ocl_priv
  target :: target_state

subsection \<open>The transport\<close>

text \<open>
  \<^verbatim>\<open>embeddedice_send\<close>, \<^verbatim>\<open>embeddedice_handshake\<close> and \<^verbatim>\<open>embeddedice_receive\<close> are
  external: the debug link is an arbitrary state machine over a state \<open>'w\<close>, given by its
  three operations (the \<^verbatim>\<open>jtag_info\<close> of the driver). Every call of the driver receives
  one word. The driver's calls are recorded in a trace, in order.
\<close>

record 'w arm_jtag =
  port_send :: "u32 list \<Rightarrow> 'w \<Rightarrow> retval \<times> 'w"
  port_handshake :: "u32 \<Rightarrow> u32 \<Rightarrow> 'w \<Rightarrow> retval \<times> 'w"
  port_receive :: "'w \<Rightarrow> retval \<times> u32 \<times> 'w"

datatype io = Send "u32 list" | Handshake u32 u32 | Receive

record 'w env =
  world :: 'w
  trace :: "io list"

definition embeddedice_send :: "'w arm_jtag \<Rightarrow> u32 list \<Rightarrow> 'w env \<Rightarrow> retval \<times> 'w env" where
  "embeddedice_send J ws e =
     (case port_send J ws (world e) of
        (r, w') \<Rightarrow> (r, \<lparr>world = w', trace = trace e @ [Send ws]\<rparr>))"

definition embeddedice_handshake ::
  "'w arm_jtag \<Rightarrow> u32 \<Rightarrow> u32 \<Rightarrow> 'w env \<Rightarrow> retval \<times> 'w env" where
  "embeddedice_handshake J hsbit timeout e =
     (case port_handshake J hsbit timeout (world e) of
        (r, w') \<Rightarrow> (r, \<lparr>world = w', trace = trace e @ [Handshake hsbit timeout]\<rparr>))"

definition embeddedice_receive :: "'w arm_jtag \<Rightarrow> 'w env \<Rightarrow> retval \<times> u32 \<times> 'w env" where
  "embeddedice_receive J e =
     (case port_receive J (world e) of
        (r, d, w') \<Rightarrow> (r, d, \<lparr>world = w', trace = trace e @ [Receive]\<rparr>))"

text \<open>The packets of a trace, in the order they were sent.\<close>

fun sent :: "io list \<Rightarrow> u32 list list" where
  "sent [] = []"
| "sent (Send ws # tr) = ws # sent tr"
| "sent (_ # tr) = sent tr"

subsection \<open>\<^verbatim>\<open>ocl_flash_bank_command\<close>\<close>

text \<open>The driver's private data of a bank that was configured and never probed.\<close>

definition ocl_flash_bank_command :: ocl_priv where
  "ocl_flash_bank_command = \<lparr>buflen = 0, bufalign = 1\<rparr>"

subsection \<open>\<^verbatim>\<open>ocl_erase\<close>\<close>

text \<open>
  \<^verbatim>\<open>first\<close> and \<^verbatim>\<open>last\<close> are \<^verbatim>\<open>int\<close>; they are compared with and converted to unsigned
  words, so their bit patterns are all that matters. The three transport calls are written
  \<^verbatim>\<open>retval = call != ERROR_OK\<close>: a failure returns 1.
\<close>

definition ocl_erase ::
  "ocl_h \<Rightarrow> 'w arm_jtag \<Rightarrow> flash_bank \<Rightarrow> u32 \<Rightarrow> u32 \<Rightarrow> 'w env \<Rightarrow> retval \<times> 'w env" where
  "ocl_erase K J bank first last' e =
     (if num_sectors bank = 0 then (ERROR_FLASH_BANK_NOT_PROBED, e)
      else if target bank \<noteq> TARGET_RUNNING then (ERROR_TARGET_NOT_RUNNING, e)
      else
        (case embeddedice_send J
                (if first = 0 \<and> last' = num_sectors bank - 1
                 then [OCL_ERASE_ALL K]
                 else [OCL_ERASE_BLOCK K, first, last']) e of
           (r1, e1) \<Rightarrow>
             if r1 \<noteq> ERROR_OK then (C_INT 1, e1)
             else
               (case embeddedice_handshake J (EICE_COMM_CTRL_WBIT K) 1000 e1 of
                  (r2, e2) \<Rightarrow>
                    if r2 \<noteq> ERROR_OK then (C_INT 1, e2)
                    else
                      (case embeddedice_receive J e2 of
                         (r3, d, e3) \<Rightarrow>
                           if r3 \<noteq> ERROR_OK then (C_INT 1, e3)
                           else if d \<noteq> OCL_CMD_DONE K
                             then (ERROR_FLASH_OPERATION_FAILED, e3)
                             else (ERROR_OK, e3)))))"

subsection \<open>\<^verbatim>\<open>ocl_write\<close>: the staging buffer\<close>

text \<open>
  The staging buffer \<^verbatim>\<open>dcc_buffer\<close> is an array of \<^verbatim>\<open>buflen/4 + 3\<close> words and
  \<^verbatim>\<open>dcc_bufptr\<close> is a cursor into it, held as an index. C does not check an access; the
  model does, and an access outside the array, or a read past the end of the payload, ends
  the run with a fault.
\<close>

datatype fault = DCC_BUFFER_OVERRUN | PAYLOAD_OVERRUN

definition seq :: "fault + 'a \<Rightarrow> ('a \<Rightarrow> fault + 'b) \<Rightarrow> fault + 'b" where
  "seq m f = (case m of Inl x \<Rightarrow> Inl x | Inr a \<Rightarrow> f a)"

record pack_state =
  dcc_buffer :: "u32 list"
  dcc_bufptr :: nat
  buffer :: "u8 list"
  byteofs :: nat
  chksum :: u32

text \<open>\<^verbatim>\<open>dcc_buffer[i] = v\<close>\<close>

definition store_at :: "u32 list \<Rightarrow> nat \<Rightarrow> u32 \<Rightarrow> fault + u32 list" where
  "store_at dcc i v = (if i < length dcc then Inr (dcc[i := v]) else Inl DCC_BUFFER_OVERRUN)"

text \<open>\<^verbatim>\<open>*dcc_bufptr = v\<close>\<close>

definition store_dcc :: "pack_state \<Rightarrow> u32 \<Rightarrow> fault + pack_state" where
  "store_dcc s v =
     seq (store_at (dcc_buffer s) (dcc_bufptr s) v) (\<lambda>dcc. Inr (s\<lparr>dcc_buffer := dcc\<rparr>))"

text \<open>\<^verbatim>\<open>*dcc_bufptr &= v\<close>\<close>

definition and_dcc :: "pack_state \<Rightarrow> u32 \<Rightarrow> fault + pack_state" where
  "and_dcc s v =
     (if dcc_bufptr s < length (dcc_buffer s)
      then store_dcc s ((dcc_buffer s ! dcc_bufptr s) AND v)
      else Inl DCC_BUFFER_OVERRUN)"

text \<open>\<^verbatim>\<open>chksum ^= *(dcc_bufptr++)\<close>\<close>

definition xor_next :: "pack_state \<Rightarrow> fault + pack_state" where
  "xor_next s =
     (if dcc_bufptr s < length (dcc_buffer s)
      then Inr (s\<lparr>chksum := chksum s XOR (dcc_buffer s ! dcc_bufptr s),
                  dcc_bufptr := dcc_bufptr s + 1\<rparr>)
      else Inl DCC_BUFFER_OVERRUN)"

text \<open>
  One round of the \<^verbatim>\<open>for\<close> loop: \<^verbatim>\<open>switch (byteofs++)\<close> with its four cases. The
  switch has no default: for any other value only the increment happens.
\<close>

definition pack_byte :: "pack_state \<Rightarrow> fault + pack_state" where
  "pack_byte s =
     (if byteofs s = 0 then
        (case buffer s of
           [] \<Rightarrow> Inl PAYLOAD_OVERRUN
         | b # bs \<Rightarrow> and_dcc (s\<lparr>buffer := bs, byteofs := 1\<rparr>) (ucast b OR 0xffffff00))
      else if byteofs s = 1 then
        (case buffer s of
           [] \<Rightarrow> Inl PAYLOAD_OVERRUN
         | b # bs \<Rightarrow>
             and_dcc (s\<lparr>buffer := bs, byteofs := 2\<rparr>) (push_bit 8 (ucast b) OR 0xffff00ff))
      else if byteofs s = 2 then
        (case buffer s of
           [] \<Rightarrow> Inl PAYLOAD_OVERRUN
         | b # bs \<Rightarrow>
             and_dcc (s\<lparr>buffer := bs, byteofs := 3\<rparr>) (push_bit 16 (ucast b) OR 0xff00ffff))
      else if byteofs s = 3 then
        (case buffer s of
           [] \<Rightarrow> Inl PAYLOAD_OVERRUN
         | b # bs \<Rightarrow>
             seq (and_dcc (s\<lparr>buffer := bs, byteofs := 4\<rparr>) (push_bit 24 (ucast b) OR 0x00ffffff))
               (\<lambda>s1. seq (xor_next s1)
               (\<lambda>s2. seq (store_dcc s2 0xffffffff)
               (\<lambda>s3. Inr (s3\<lparr>byteofs := 0\<rparr>)))))
      else Inr (s\<lparr>byteofs := byteofs s + 1\<rparr>))"

text \<open>\<^verbatim>\<open>for (i = 0; i < runlen; i++)\<close>, by the number of rounds left.\<close>

primrec pack_loop :: "nat \<Rightarrow> pack_state \<Rightarrow> fault + pack_state" where
  "pack_loop 0 s = Inr s"
| "pack_loop (Suc n) s = seq (pack_byte s) (pack_loop n)"

text \<open>
  The packer, from \<^verbatim>\<open>dcc_bufptr = &dcc_buffer[2]\<close> to \<^verbatim>\<open>*(dcc_bufptr++) = chksum\<close>, for
  a checksum seed \<open>c\<close>, a start position \<open>bo\<close> in the first word and \<open>n\<close> rounds.
\<close>

definition pack_payload ::
  "u32 \<Rightarrow> u32 list \<Rightarrow> u8 list \<Rightarrow> nat \<Rightarrow> nat \<Rightarrow> fault + pack_state" where
  "pack_payload c dcc buf bo n =
     seq (store_dcc \<lparr>dcc_buffer = dcc, dcc_bufptr = 2, buffer = buf, byteofs = bo, chksum = c\<rparr>
            0xffffffff)
       (\<lambda>s0. seq (pack_loop n s0)
       (\<lambda>s1. seq (if byteofs s1 \<noteq> 0 then xor_next s1 else Inr s1)
       (\<lambda>s2. seq (store_dcc s2 (chksum s2))
       (\<lambda>s3. Inr (s3\<lparr>dcc_bufptr := dcc_bufptr s3 + 1\<rparr>)))))"

text \<open>
  One chunk: the two header words, then the packer. \<^verbatim>\<open>runlen\<close> is an \<^verbatim>\<open>int\<close>: the loop
  compares it as signed, so it runs \<open>nat (sint runlen)\<close> rounds, none when it is negative.
\<close>

definition pack_chunk ::
  "ocl_h \<Rightarrow> ocl_priv \<Rightarrow> u32 list \<Rightarrow> u8 list \<Rightarrow> u32 \<Rightarrow> u32 \<Rightarrow> fault + pack_state" where
  "pack_chunk K ocl dcc buf offs runlen =
     seq (store_at dcc 0 (OCL_FLASH_BLOCK K OR runlen))
       (\<lambda>dcc1. seq (store_at dcc1 1 offs)
       (\<lambda>dcc2. pack_payload (OCL_CHKS_INIT K) dcc2 buf
                  (unat ((offs mod bufalign ocl) mod 4)) (nat (sint runlen))))"

text \<open>The words handed to \<^verbatim>\<open>embeddedice_send\<close>: \<^verbatim>\<open>dcc_bufptr - dcc_buffer\<close> words.\<close>

definition dcc_block :: "pack_state \<Rightarrow> u32 list" where
  "dcc_block s = take (dcc_bufptr s) (dcc_buffer s)"

subsection \<open>\<^verbatim>\<open>ocl_write\<close>: the chunking loop\<close>

definition next_runlen :: "ocl_priv \<Rightarrow> u32 \<Rightarrow> u32 \<Rightarrow> u32" where
  "next_runlen ocl offs cnt =
     (if cnt + (offs mod bufalign ocl) > buflen ocl
      then buflen ocl - (offs mod bufalign ocl)
      else cnt)"

text \<open>
  \<^verbatim>\<open>while (count)\<close>. The loop need not end (a chunk of length 0 repeats for ever), so the
  model takes fuel, one unit for each test of the loop condition, and \<open>None\<close> is a run that
  was cut off. The response word is received into \<^verbatim>\<open>dcc_buffer[0]\<close>.
\<close>

fun ocl_write_loop ::
  "nat \<Rightarrow> ocl_h \<Rightarrow> 'w arm_jtag \<Rightarrow> ocl_priv \<Rightarrow> u32 list \<Rightarrow> u8 list \<Rightarrow> u32 \<Rightarrow> u32 \<Rightarrow> 'w env
     \<Rightarrow> (fault + retval \<times> 'w env) option" where
  "ocl_write_loop 0 K J ocl dcc buf offs cnt e = None"
| "ocl_write_loop (Suc fuel) K J ocl dcc buf offs cnt e =
     (if cnt = 0 then Some (Inr (ERROR_OK, e))
      else
        (case pack_chunk K ocl dcc buf offs (next_runlen ocl offs cnt) of
           Inl f \<Rightarrow> Some (Inl f)
         | Inr s \<Rightarrow>
             (case embeddedice_send J (dcc_block s) e of
                (r1, e1) \<Rightarrow>
                  if r1 \<noteq> ERROR_OK then Some (Inr (r1, e1))
                  else
                    (case embeddedice_handshake J (EICE_COMM_CTRL_WBIT K) 1000 e1 of
                       (r2, e2) \<Rightarrow>
                         if r2 \<noteq> ERROR_OK then Some (Inr (C_INT 1, e2))
                         else
                           (case embeddedice_receive J e2 of
                              (r3, d, e3) \<Rightarrow>
                                if r3 \<noteq> ERROR_OK then Some (Inr (C_INT 1, e3))
                                else if d \<noteq> OCL_CMD_DONE K
                                  then Some (Inr (ERROR_FLASH_OPERATION_FAILED, e3))
                                  else ocl_write_loop fuel K J ocl ((dcc_buffer s)[0 := d])
                                         (buffer s)
                                         (offs + next_runlen ocl offs cnt)
                                         (cnt - next_runlen ocl offs cnt) e3)))))"

text \<open>
  \<^verbatim>\<open>malloc\<close> returns memory of indeterminate content; the model fills it with zeros. Every
  word that is sent is stored first.
\<close>

definition ocl_write ::
  "nat \<Rightarrow> ocl_h \<Rightarrow> 'w arm_jtag \<Rightarrow> flash_bank \<Rightarrow> u8 list \<Rightarrow> u32 \<Rightarrow> u32 \<Rightarrow> 'w env
     \<Rightarrow> (fault + retval \<times> 'w env) option" where
  "ocl_write fuel K J bank buf offs cnt e =
     (if buflen (driver_priv bank) = 0 \<or> bufalign (driver_priv bank) = 0
        then Some (Inr (ERROR_FLASH_BANK_NOT_PROBED, e))
      else if target bank \<noteq> TARGET_RUNNING then Some (Inr (ERROR_TARGET_NOT_RUNNING, e))
      else ocl_write_loop fuel K J (driver_priv bank)
             (replicate (unat (buflen (driver_priv bank) div 4 + 3)) 0) buf offs cnt e)"

text \<open>
  The chunks of the loop when every transfer succeeds: the \<^verbatim>\<open>offset\<close> and \<^verbatim>\<open>runlen\<close> of
  each round, with the same fuel.
\<close>

fun write_chunks :: "nat \<Rightarrow> ocl_priv \<Rightarrow> u32 \<Rightarrow> u32 \<Rightarrow> (u32 \<times> u32) list option" where
  "write_chunks 0 ocl offs cnt = None"
| "write_chunks (Suc fuel) ocl offs cnt =
     (if cnt = 0 then Some []
      else map_option ((#) (offs, next_runlen ocl offs cnt))
             (write_chunks fuel ocl (offs + next_runlen ocl offs cnt)
                (cnt - next_runlen ocl offs cnt)))"

subsection \<open>\<^verbatim>\<open>ocl_probe\<close>\<close>

text \<open>
  One geometry word: \<^verbatim>\<open>embeddedice_handshake(.., 0) != ERROR_OK || embeddedice_receive(..)
  != ERROR_OK\<close>. The receive is not called when the handshake fails; \<open>None\<close> is a failure
  of either, for which the code returns 1.
\<close>

definition probe_word :: "ocl_h \<Rightarrow> 'w arm_jtag \<Rightarrow> 'w env \<Rightarrow> u32 option \<times> 'w env" where
  "probe_word K J e =
     (case embeddedice_handshake J (EICE_COMM_CTRL_WBIT K) 0 e of
        (r1, e1) \<Rightarrow>
          if r1 \<noteq> ERROR_OK then (None, e1)
          else
            (case embeddedice_receive J e1 of
               (r2, d, e2) \<Rightarrow> if r2 \<noteq> ERROR_OK then (None, e2) else (Some d, e2)))"

text \<open>
  The first part of \<^verbatim>\<open>ocl_probe\<close>, up to \<^verbatim>\<open>ocl->bufalign = dcc_buffer[0] >> 16\<close>: the
  purge, the probe command and the four geometry words, each stored in the bank as soon as it
  is received.
\<close>

definition ocl_probe_receive ::
  "ocl_h \<Rightarrow> 'w arm_jtag \<Rightarrow> flash_bank \<Rightarrow> 'w env \<Rightarrow> retval \<times> flash_bank \<times> 'w env" where
  "ocl_probe_receive K J bank e =
     (case embeddedice_receive J e of
        (r0, d0, e0) \<Rightarrow>
     (case embeddedice_send J [OCL_PROBE K] e0 of
        (r1, e1) \<Rightarrow>
          if r1 \<noteq> ERROR_OK then (C_INT 1, bank, e1) else
     (case embeddedice_handshake J (EICE_COMM_CTRL_WBIT K) 1000 e1 of
        (r2, e2) \<Rightarrow>
          if r2 \<noteq> ERROR_OK then (C_INT 1, bank, e2) else
     (case embeddedice_receive J e2 of
        (r3, d, e3) \<Rightarrow>
          if r3 \<noteq> ERROR_OK then (C_INT 1, bank, e3)
          else if d \<noteq> OCL_CMD_DONE K then (ERROR_FLASH_OPERATION_FAILED, bank, e3) else
     (case probe_word K J e3 of
        (None, e4) \<Rightarrow> (C_INT 1, bank, e4)
      | (Some d1, e4) \<Rightarrow>
     (case probe_word K J e4 of
        (None, e5) \<Rightarrow> (C_INT 1, bank\<lparr>bank_base := d1\<rparr>, e5)
      | (Some d2, e5) \<Rightarrow>
     (case probe_word K J e5 of
        (None, e6) \<Rightarrow> (C_INT 1, bank\<lparr>bank_base := d1, bank_size := d2\<rparr>, e6)
      | (Some d3, e6) \<Rightarrow>
     (case probe_word K J e6 of
        (None, e7) \<Rightarrow>
          (C_INT 1, bank\<lparr>bank_base := d1, bank_size := d2, num_sectors := d3\<rparr>, e7)
      | (Some d4, e7) \<Rightarrow>
          (ERROR_OK,
           bank\<lparr>bank_base := d1, bank_size := d2, num_sectors := d3,
                driver_priv := \<lparr>buflen = d4 AND 0xffff, bufalign = drop_bit 16 d4\<rparr>\<rparr>,
           e7)))))))))"

text \<open>
  \<^verbatim>\<open>realloc(bank->sectors, sizeof(struct flash_sector) * bank->num_sectors)\<close>, whose result
  the code does not test. A sector count that is negative as an \<^verbatim>\<open>int\<close> (\<open>2^31\<close> or more
  as unsigned) is converted to a \<^verbatim>\<open>size_t\<close> near its maximum, and the product is a size that
  no allocator serves: the result is \<^verbatim>\<open>NULL\<close>, a table without an entry. Any other request
  is taken to be served, like that of \<^verbatim>\<open>malloc\<close> in \<^verbatim>\<open>ocl_write\<close>: the old entries that
  fit are kept, and new memory has indeterminate content, for which the model takes a sector
  of zeros.
\<close>

definition realloc_sectors :: "flash_sector list \<Rightarrow> u32 \<Rightarrow> flash_sector list" where
  "realloc_sectors secs n =
     (if sint n < 0 then []
      else take (unat n) secs @
           replicate (unat n - length secs)
             \<lparr>sector_offset = 0, sector_size = 0, is_erased = 0, is_protected = 0\<rparr>)"

text \<open>
  The body of the sector loop for the counter \<open>i\<close>. \<^verbatim>\<open>i * sectsize\<close> is a product of two
  \<^verbatim>\<open>int\<close>, stored in a u32.
\<close>

definition mk_sector :: "u32 \<Rightarrow> nat \<Rightarrow> flash_sector" where
  "mk_sector sectsize i =
     \<lparr>sector_offset = of_nat i * sectsize, sector_size = sectsize,
      is_erased = - 1, is_protected = - 1\<rparr>"

text \<open>
  \<^verbatim>\<open>for (i = 0; i < bank->num_sectors; i++)\<close> with the \<^verbatim>\<open>int\<close> counter \<open>i\<close>, which
  starts at 0: the comparison is one of \<^verbatim>\<open>int\<close>, and the loop does not run for a count
  that is negative as an \<^verbatim>\<open>int\<close>. In the body \<open>i\<close> is below the count, so that \<^verbatim>\<open>i++\<close>
  does not overflow and \<^verbatim>\<open>bank->sectors[i]\<close> is an entry of the table that \<^verbatim>\<open>realloc\<close>
  returned for this count, which has as many entries as the loop has rounds.
\<close>

function fill_sectors :: "u32 \<Rightarrow> int \<Rightarrow> u32 \<Rightarrow> flash_sector list \<Rightarrow> flash_sector list" where
  "fill_sectors n i sectsize secs =
     (if i < sint n
      then fill_sectors n (i + 1) sectsize (secs[nat i := mk_sector sectsize (nat i)])
      else secs)"
  by pat_completeness auto

termination fill_sectors
  by (relation "measure (\<lambda>(n, i, sectsize, secs). nat (sint n - i))") auto

declare fill_sectors.simps [simp del]

text \<open>The second part of \<^verbatim>\<open>ocl_probe\<close>, from the \<^verbatim>\<open>realloc\<close> on: the checks.\<close>

definition ocl_probe_validate :: "flash_bank \<Rightarrow> retval \<times> flash_bank" where
  "ocl_probe_validate bank =
     (let bank1 = bank\<lparr>sectors := realloc_sectors (sectors bank) (num_sectors bank)\<rparr> in
      if num_sectors bank1 = 0 then (ERROR_FLASH_BANK_INVALID, bank1)
      else if bank_size bank1 mod num_sectors bank1 \<noteq> 0 then (ERROR_FLASH_BANK_INVALID, bank1)
      else
        let sectsize = bank_size bank1 div num_sectors bank1;
            bank2 = bank1\<lparr>sectors :=
                      fill_sectors (num_sectors bank1) 0 sectsize (sectors bank1)\<rparr>;
            ocl = driver_priv bank2;
            ocl1 = (if bufalign ocl = 0 then ocl\<lparr>bufalign := 1\<rparr> else ocl);
            bank3 = bank2\<lparr>driver_priv := ocl1\<rparr>
        in
          if buflen ocl1 = 0 then (ERROR_FLASH_BANK_INVALID, bank3)
          else if bufalign ocl1 > buflen ocl1 \<or> buflen ocl1 mod bufalign ocl1 \<noteq> 0
            then (ERROR_FLASH_BANK_INVALID, bank3)
          else if buflen ocl1 mod 4 \<noteq> 0 then (ERROR_FLASH_BANK_INVALID, bank3)
          else (ERROR_OK, bank3))"

definition ocl_probe ::
  "ocl_h \<Rightarrow> 'w arm_jtag \<Rightarrow> flash_bank \<Rightarrow> 'w env \<Rightarrow> retval \<times> flash_bank \<times> 'w env" where
  "ocl_probe K J bank e =
     (case ocl_probe_receive K J bank e of
        (r, bank1, e1) \<Rightarrow>
          if r \<noteq> ERROR_OK then (r, bank1, e1)
          else (case ocl_probe_validate bank1 of (r', bank2) \<Rightarrow> (r', bank2, e1)))"

subsection \<open>\<^verbatim>\<open>ocl_auto_probe\<close>\<close>

definition ocl_auto_probe :: "flash_bank \<Rightarrow> retval" where
  "ocl_auto_probe bank =
     (if buflen (driver_priv bank) = 0 \<or> bufalign (driver_priv bank) = 0
      then ERROR_FLASH_BANK_NOT_PROBED
      else ERROR_OK)"

subsection \<open>A loader to run the driver against\<close>

text \<open>
  A transport whose state is the list of the words the loader will deliver: every send and
  handshake succeeds, and a receive takes the next word, or fails when there is none.
\<close>

definition loader :: "(u32 list) arm_jtag" where
  "loader =
     \<lparr>port_send = (\<lambda>ws q. (ERROR_OK, q)),
      port_handshake = (\<lambda>hsbit timeout q. (ERROR_OK, q)),
      port_receive = (\<lambda>q. case q of [] \<Rightarrow> (ERROR_FAIL, 0, []) | d # q' \<Rightarrow> (ERROR_OK, d, q'))\<rparr>"

text \<open>Values for the macros of \<^verbatim>\<open>ocl.h\<close> and \<^verbatim>\<open>embeddedice.h\<close>, to run the driver with.\<close>

definition openocd_h :: ocl_h where
  "openocd_h =
     \<lparr>OCL_FLASH_BLOCK = 0x0CFB0000, OCL_ERASE_BLOCK = 0x0CEB0000, OCL_ERASE_ALL = 0x0CEA0000,
      OCL_PROBE = 0x0CBE0000, OCL_CMD_DONE = 0x0ACD0000, OCL_CHKS_INIT = 0xC100CD0C,
      EICE_COMM_CTRL_WBIT = 1\<rparr>"

definition unprobed_bank :: flash_bank where
  "unprobed_bank =
     \<lparr>bank_base = 0, bank_size = 0, num_sectors = 0, sectors = [],
      driver_priv = ocl_flash_bank_command, target = TARGET_RUNNING\<rparr>"

text \<open>A bank as a successful probe leaves it: 16 sectors of 0x1000 bytes, a buffer of 0x1000.\<close>

definition probed_bank :: flash_bank where
  "probed_bank =
     \<lparr>bank_base = 0x100000, bank_size = 0x10000, num_sectors = 16,
      sectors = map (mk_sector 0x1000) [0..<16],
      driver_priv = \<lparr>buflen = 0x1000, bufalign = 0x1000\<rparr>, target = TARGET_RUNNING\<rparr>"

subsection \<open>The loader's side of the packing\<close>

text \<open>
  What the packed words mean to the loader, after the spec: a word holds four bytes, the lowest
  first; the payload of a chunk of \<open>n\<close> bytes that starts at position \<open>bo\<close> of the first
  word is the bytes \<open>bo, \<dots>, bo + n - 1\<close> of the words, the other positions being filler.
\<close>

definition word_bytes :: "u32 \<Rightarrow> u8 list" where
  "word_bytes w = [ucast w, ucast (drop_bit 8 w), ucast (drop_bit 16 w), ucast (drop_bit 24 w)]"

definition unpack :: "nat \<Rightarrow> nat \<Rightarrow> u32 list \<Rightarrow> u8 list" where
  "unpack bo n ws = take n (drop bo (concat (map word_bytes ws)))"

text \<open>The packed payload words of a block: all but the two header words and the checksum.\<close>

definition payload_words :: "u32 list \<Rightarrow> u32 list" where
  "payload_words blk = butlast (drop 2 blk)"

subsection \<open>The chunks of a write\<close>

text \<open>The addresses of the bytes of a chunk of \<open>l\<close> bytes at \<open>s\<close>, in u32 arithmetic.\<close>

definition chunk_bytes :: "u32 \<Rightarrow> u32 \<Rightarrow> u32 list" where
  "chunk_bytes s l = map (\<lambda>k. s + of_nat k) [0..<unat l]"

text \<open>
  The chunk rule, after the spec: the chunks start where the one before stops, the first at
  \<open>offs\<close>; the length of each is the lesser of the bytes that remain and \<open>buflen\<close> minus
  the offset modulo \<open>bufalign\<close>; and there are chunks as long as bytes remain.
\<close>

fun chunked :: "ocl_priv \<Rightarrow> u32 \<Rightarrow> u32 \<Rightarrow> (u32 \<times> u32) list \<Rightarrow> bool" where
  "chunked ocl offs cnt [] = (cnt = 0)"
| "chunked ocl offs cnt ((s, l) # cs) =
     (cnt \<noteq> 0 \<and> s = offs \<and>
      unat l = min (unat cnt) (unat (buflen ocl) - unat (offs mod bufalign ocl)) \<and>
      chunked ocl (offs + l) (cnt - l) cs)"

subsection \<open>The state of the packer\<close>

text \<open>
  The words before the cursor that hold payload: the packed words that are complete.
\<close>

definition done_words :: "pack_state \<Rightarrow> u32 list" where
  "done_words s = take (dcc_bufptr s - 2) (drop 2 (dcc_buffer s))"

text \<open>
  The state of the packer in the loop, after the bytes \<open>bs\<close> of a chunk that starts at
  position \<open>bo\<close> of its first word: the cursor is in the array, the complete words and the
  first \<open>byteofs\<close> bytes of the word under the cursor hold \<open>bo\<close> bytes of filler and then
  \<open>bs\<close>, the rest of that word is filler, and \<open>chksum\<close> is the seed \<open>c\<close> xor-ed with the
  complete words.
\<close>

definition packing :: "u32 \<Rightarrow> nat \<Rightarrow> u8 list \<Rightarrow> pack_state \<Rightarrow> bool" where
  "packing c bo bs s \<longleftrightarrow>
     2 \<le> dcc_bufptr s \<and> dcc_bufptr s < length (dcc_buffer s) \<and> byteofs s < 4 \<and>
     4 * (dcc_bufptr s - 2) + byteofs s = bo + length bs \<and>
     concat (map word_bytes (done_words s)) @
       take (byteofs s) (word_bytes (dcc_buffer s ! dcc_bufptr s)) = replicate bo 0xff @ bs \<and>
     drop (byteofs s) (word_bytes (dcc_buffer s ! dcc_bufptr s)) =
       replicate (4 - byteofs s) 0xff \<and>
     chksum s = foldl (XOR) c (done_words s)"

text \<open>The state after a byte is placed in the word under the cursor.\<close>

definition placed :: "pack_state \<Rightarrow> u8 list \<Rightarrow> u32 \<Rightarrow> pack_state" where
  "placed s rest v =
     s\<lparr>buffer := rest, byteofs := Suc (byteofs s),
       dcc_buffer := (dcc_buffer s)[dcc_bufptr s := (dcc_buffer s ! dcc_bufptr s) AND v]\<rparr>"

text \<open>
  The state of the packer at the end: the cursor is behind the checksum, the header words are
  untouched, the payload words hold \<open>bo\<close> bytes of filler, \<open>bs\<close> and filler up to the end
  of the last word, and the word behind them is the seed xor-ed with all of them.
\<close>

definition packed :: "u32 \<Rightarrow> u32 list \<Rightarrow> nat \<Rightarrow> u8 list \<Rightarrow> pack_state \<Rightarrow> bool" where
  "packed c dcc bo bs s \<longleftrightarrow>
     dcc_bufptr s = 3 + (bo + length bs + 3) div 4 \<and>
     length (dcc_buffer s) = length dcc \<and>
     take 2 (dcc_buffer s) = take 2 dcc \<and>
     concat (map word_bytes (take ((bo + length bs + 3) div 4) (drop 2 (dcc_buffer s)))) =
       replicate bo 0xff @ bs @ replicate (4 * ((bo + length bs + 3) div 4) - bo - length bs) 0xff \<and>
     dcc_buffer s ! (2 + (bo + length bs + 3) div 4) =
       foldl (XOR) c (take ((bo + length bs + 3) div 4) (drop 2 (dcc_buffer s)))"

subsection \<open>The sector table as a partition\<close>

text \<open>
  The sectors, in order, tile the bytes from \<open>pos\<close> to \<open>end\<close>: each starts where the one
  before it stops, and the last stops at \<open>end\<close>.
\<close>

fun tiles :: "nat \<Rightarrow> flash_sector list \<Rightarrow> nat \<Rightarrow> bool" where
  "tiles pos [] end = (pos = end)"
| "tiles pos (s # ss) end =
     (unat (sector_offset s) = pos \<and> tiles (pos + unat (sector_size s)) ss end)"

section \<open>Properties\<close>

subsection \<open>The trace of the transport calls\<close>

lemma sent_append: "sent (xs @ ys) = sent xs @ sent ys"
  by (induction xs rule: sent.induct) simp_all

lemma trace_send: "embeddedice_send J ws e = (r, e') \<Longrightarrow> trace e' = trace e @ [Send ws]"
  by (auto simp: embeddedice_send_def split: prod.splits)

lemma trace_handshake:
  "embeddedice_handshake J h t e = (r, e') \<Longrightarrow> trace e' = trace e @ [Handshake h t]"
  by (auto simp: embeddedice_handshake_def split: prod.splits)

lemma trace_receive: "embeddedice_receive J e = (r, d, e') \<Longrightarrow> trace e' = trace e @ [Receive]"
  by (auto simp: embeddedice_receive_def split: prod.splits)

subsection \<open>Erase\<close>

text \<open>
  C5. On a probed bank (\<open>num_sectors\<close> is not 0) whose target is running, \<^verbatim>\<open>ocl_erase\<close>
  sends exactly one packet: the single word \<open>OCL_ERASE_ALL\<close> when \<open>first = 0\<close> and
  \<open>last = num_sectors - 1\<close>, and the three words \<open>OCL_ERASE_BLOCK, first, last\<close> for every
  other range.
\<close>

theorem ocl_erase_packet:
  assumes "num_sectors bank \<noteq> 0" and "target bank = TARGET_RUNNING"
  shows "sent (trace (snd (ocl_erase K J bank first last' e))) =
         sent (trace e) @
           [if first = 0 \<and> last' = num_sectors bank - 1
            then [OCL_ERASE_ALL K]
            else [OCL_ERASE_BLOCK K, first, last']]"
proof -
  define pkt where "pkt = (if first = 0 \<and> last' = num_sectors bank - 1
            then [OCL_ERASE_ALL K] else [OCL_ERASE_BLOCK K, first, last'])"
  obtain r1 e1 where s: "embeddedice_send J pkt e = (r1, e1)" by fastforce
  obtain r2 e2 where h: "embeddedice_handshake J (EICE_COMM_CTRL_WBIT K) 1000 e1 = (r2, e2)"
    by fastforce
  obtain r3 d e3 where r: "embeddedice_receive J e2 = (r3, d, e3)"
    using prod_cases3 by blast
  note t = trace_send [OF s] trace_handshake [OF h] trace_receive [OF r]
  have "ocl_erase K J bank first last' e =
      (if r1 \<noteq> ERROR_OK then (C_INT 1, e1)
       else if r2 \<noteq> ERROR_OK then (C_INT 1, e2)
       else if r3 \<noteq> ERROR_OK then (C_INT 1, e3)
       else if d \<noteq> OCL_CMD_DONE K then (ERROR_FLASH_OPERATION_FAILED, e3)
       else (ERROR_OK, e3))"
    using assms s h r unfolding ocl_erase_def pkt_def [symmetric] by simp
  then show ?thesis
    unfolding pkt_def [symmetric] by (simp add: t sent_append)
qed

text \<open>
  Erasing sectors 0 to 15 of a bank of 16 sectors sends the one word \<open>OCL_ERASE_ALL\<close>;
  erasing sectors 3 to 15 sends an erase-block packet.
\<close>

theorem ocl_erase_packet_witness:
  "num_sectors (unprobed_bank\<lparr>num_sectors := 16\<rparr>) \<noteq> 0 \<and>
   target (unprobed_bank\<lparr>num_sectors := 16\<rparr>) = TARGET_RUNNING \<and>
   sent (trace (snd (ocl_erase openocd_h loader (unprobed_bank\<lparr>num_sectors := 16\<rparr>) 0 15
      \<lparr>world = [0x0ACD0000], trace = []\<rparr>))) = [0x0CEA0000] # [] \<and>
   sent (trace (snd (ocl_erase openocd_h loader (unprobed_bank\<lparr>num_sectors := 16\<rparr>) 3 15
      \<lparr>world = [0x0ACD0000], trace = []\<rparr>))) = [0x0CEB0000, 3, 15] # []"
  using ocl_erase_packet [of "unprobed_bank\<lparr>num_sectors := 16\<rparr>" openocd_h loader 0 15
          "\<lparr>world = [0x0ACD0000], trace = []\<rparr>"]
    ocl_erase_packet [of "unprobed_bank\<lparr>num_sectors := 16\<rparr>" openocd_h loader 3 15
          "\<lparr>world = [0x0ACD0000], trace = []\<rparr>"]
  by (simp add: unprobed_bank_def openocd_h_def)

subsection \<open>The precondition checks\<close>

text \<open>
  C6, as the code has it. \<^verbatim>\<open>ocl_write\<close> and \<^verbatim>\<open>ocl_auto_probe\<close> first check that
  \<open>buflen\<close> and \<open>bufalign\<close> are both non-zero, and \<^verbatim>\<open>ocl_erase\<close> first checks that
  \<open>num_sectors\<close> is non-zero; each fails with \<open>ERROR_FLASH_BANK_NOT_PROBED\<close> otherwise.
  \<^verbatim>\<open>ocl_write\<close> and \<^verbatim>\<open>ocl_erase\<close> then check that the target is running and fail with
  \<open>ERROR_TARGET_NOT_RUNNING\<close> otherwise. In all these cases the environment is returned as
  it was: no transport call is made.
\<close>

theorem ocl_check_preconditions:
  "(buflen (driver_priv bank) = 0 \<or> bufalign (driver_priv bank) = 0 \<longrightarrow>
      ocl_write fuel K J bank buf offs cnt e = Some (Inr (ERROR_FLASH_BANK_NOT_PROBED, e)) \<and>
      ocl_auto_probe bank = ERROR_FLASH_BANK_NOT_PROBED) \<and>
   (num_sectors bank = 0 \<longrightarrow>
      ocl_erase K J bank first last' e = (ERROR_FLASH_BANK_NOT_PROBED, e)) \<and>
   (buflen (driver_priv bank) \<noteq> 0 \<and> bufalign (driver_priv bank) \<noteq> 0 \<and>
    target bank \<noteq> TARGET_RUNNING \<longrightarrow>
      ocl_write fuel K J bank buf offs cnt e = Some (Inr (ERROR_TARGET_NOT_RUNNING, e))) \<and>
   (num_sectors bank \<noteq> 0 \<and> target bank \<noteq> TARGET_RUNNING \<longrightarrow>
      ocl_erase K J bank first last' e = (ERROR_TARGET_NOT_RUNNING, e))"
  by (simp add: ocl_write_def ocl_erase_def ocl_auto_probe_def)

text \<open>
  A bank that was never probed rejects a write, an auto-probe and an erase; a bank with a
  geometry whose target is halted rejects a write and an erase.
\<close>

theorem ocl_check_preconditions_witness:
  "ocl_write 1 openocd_h loader unprobed_bank [1, 2] 0 2 \<lparr>world = [], trace = []\<rparr> =
     Some (Inr (ERROR_FLASH_BANK_NOT_PROBED, \<lparr>world = [], trace = []\<rparr>)) \<and>
   ocl_auto_probe unprobed_bank = ERROR_FLASH_BANK_NOT_PROBED \<and>
   ocl_erase openocd_h loader unprobed_bank 0 0 \<lparr>world = [], trace = []\<rparr> =
     (ERROR_FLASH_BANK_NOT_PROBED, \<lparr>world = [], trace = []\<rparr>) \<and>
   ocl_write 1 openocd_h loader
     (unprobed_bank\<lparr>num_sectors := 16, driver_priv := \<lparr>buflen = 4, bufalign = 4\<rparr>,
        target := TARGET_HALTED\<rparr>) [1, 2] 0 2 \<lparr>world = [], trace = []\<rparr> =
     Some (Inr (ERROR_TARGET_NOT_RUNNING, \<lparr>world = [], trace = []\<rparr>)) \<and>
   ocl_erase openocd_h loader
     (unprobed_bank\<lparr>num_sectors := 16, driver_priv := \<lparr>buflen = 4, bufalign = 4\<rparr>,
        target := TARGET_HALTED\<rparr>) 0 0 \<lparr>world = [], trace = []\<rparr> =
     (ERROR_TARGET_NOT_RUNNING, \<lparr>world = [], trace = []\<rparr>)"
  using ocl_check_preconditions [of unprobed_bank 1 openocd_h loader "[1, 2]" 0 2
          "\<lparr>world = [], trace = []\<rparr>" 0 0]
    ocl_check_preconditions [of "unprobed_bank\<lparr>num_sectors := 16,
          driver_priv := \<lparr>buflen = 4, bufalign = 4\<rparr>, target := TARGET_HALTED\<rparr>"
          1 openocd_h loader "[1, 2]" 0 2 "\<lparr>world = [], trace = []\<rparr>" 0 0]
  by (simp add: unprobed_bank_def ocl_flash_bank_command_def)

text \<open>
  \<^verbatim>\<open>ocl_erase\<close> does not look at \<open>buflen\<close>. A probe that reports 16 sectors and a
  buffer length of 0 is rejected and leaves the 16 sectors and the buffer length 0 in the
  bank; the next erase of sectors 0 to 15 sends \<open>OCL_ERASE_ALL\<close> and returns \<open>ERROR_OK\<close>.
\<close>

theorem ocl_erase_buflen_counterexample:
  "fst (ocl_probe openocd_h loader unprobed_bank
     \<lparr>world = [0, 0x0ACD0000, 0x100000, 0x10000, 16, 0x10000000], trace = []\<rparr>) =
     ERROR_FLASH_BANK_INVALID \<and>
   buflen (driver_priv (fst (snd (ocl_probe openocd_h loader unprobed_bank
     \<lparr>world = [0, 0x0ACD0000, 0x100000, 0x10000, 16, 0x10000000], trace = []\<rparr>)))) = 0 \<and>
   ocl_erase openocd_h loader
     (fst (snd (ocl_probe openocd_h loader unprobed_bank
        \<lparr>world = [0, 0x0ACD0000, 0x100000, 0x10000, 16, 0x10000000], trace = []\<rparr>)))
     0 15 \<lparr>world = [0x0ACD0000], trace = []\<rparr> =
     (ERROR_OK, \<lparr>world = [], trace = [Send [0x0CEA0000], Handshake 1 1000, Receive]\<rparr>)"
  by code_simp

subsection \<open>Probe: the checks\<close>

lemma ocl_probe_validate_retval:
  "fst (ocl_probe_validate b) =
     (if num_sectors b = 0 \<or> bank_size b mod num_sectors b \<noteq> 0 \<or>
         buflen (driver_priv b) = 0 \<or>
         (if bufalign (driver_priv b) = 0 then 1 else bufalign (driver_priv b))
           > buflen (driver_priv b) \<or>
         buflen (driver_priv b) mod
           (if bufalign (driver_priv b) = 0 then 1 else bufalign (driver_priv b)) \<noteq> 0 \<or>
         buflen (driver_priv b) mod 4 \<noteq> 0
      then ERROR_FLASH_BANK_INVALID else ERROR_OK)"
  by (simp add: ocl_probe_validate_def Let_def)

lemma ocl_probe_validate_priv:
  "fst (ocl_probe_validate b) = ERROR_OK \<Longrightarrow>
   driver_priv (snd (ocl_probe_validate b)) =
     \<lparr>buflen = buflen (driver_priv b),
      bufalign = (if bufalign (driver_priv b) = 0 then 1 else bufalign (driver_priv b))\<rparr>"
  by (simp add: ocl_probe_validate_def Let_def split: if_splits)

lemma ocl_probe_validate_keeps:
  "num_sectors (snd (ocl_probe_validate b)) = num_sectors b"
  "buflen (driver_priv (snd (ocl_probe_validate b))) = buflen (driver_priv b)"
  by (simp_all add: ocl_probe_validate_def Let_def)

lemma ocl_probe_receive_priv:
  "driver_priv (fst (snd (ocl_probe_receive K J bank e))) \<noteq> driver_priv bank \<Longrightarrow>
   fst (ocl_probe_receive K J bank e) = ERROR_OK"
  by (auto simp: ocl_probe_receive_def split: prod.splits option.splits if_splits)

text \<open>The probe of a bank that was never probed, against a loader that answers six words.\<close>

lemma probe_receive_loader:
  "ocl_probe_receive openocd_h loader unprobed_bank
     \<lparr>world = [p, 0x0ACD0000, b, s, n, w], trace = []\<rparr> =
   (ERROR_OK,
    unprobed_bank\<lparr>bank_base := b, bank_size := s, num_sectors := n,
      driver_priv := \<lparr>buflen = w AND 0xffff, bufalign = drop_bit 16 w\<rparr>\<rparr>,
    \<lparr>world = [],
     trace = [Receive, Send [0x0CBE0000], Handshake 1 1000, Receive, Handshake 1 0, Receive,
              Handshake 1 0, Receive, Handshake 1 0, Receive, Handshake 1 0, Receive]\<rparr>)"
  by (simp add: ocl_probe_receive_def probe_word_def embeddedice_send_def
      embeddedice_handshake_def embeddedice_receive_def loader_def openocd_h_def)

text \<open>
  C4. When the probe has received the geometry (the bank \<open>b\<close> holds the reported values),
  \<^verbatim>\<open>ocl_probe\<close> returns \<open>ERROR_FLASH_BANK_INVALID\<close> exactly when one of the conditions is
  violated (the sector count is 0, the size is not a multiple of the sector count, the buffer
  length is 0, the alignment exceeds the buffer length or does not divide it, the buffer
  length is not a multiple of 4), each alone being enough, and \<open>ERROR_OK\<close> otherwise. In
  the checks, and in the bank of a successful probe, a reported alignment of 0 is 1.
\<close>

theorem ocl_probe_rejects:
  assumes "ocl_probe_receive K J bank e = (ERROR_OK, b, e')"
  shows "fst (ocl_probe K J bank e) =
     (if num_sectors b = 0 \<or> bank_size b mod num_sectors b \<noteq> 0 \<or>
         buflen (driver_priv b) = 0 \<or>
         (if bufalign (driver_priv b) = 0 then 1 else bufalign (driver_priv b))
           > buflen (driver_priv b) \<or>
         buflen (driver_priv b) mod
           (if bufalign (driver_priv b) = 0 then 1 else bufalign (driver_priv b)) \<noteq> 0 \<or>
         buflen (driver_priv b) mod 4 \<noteq> 0
      then ERROR_FLASH_BANK_INVALID else ERROR_OK) \<and>
     (fst (ocl_probe K J bank e) = ERROR_OK \<longrightarrow>
        bufalign (driver_priv (fst (snd (ocl_probe K J bank e)))) =
          (if bufalign (driver_priv b) = 0 then 1 else bufalign (driver_priv b)))"
proof -
  have p: "ocl_probe K J bank e =
      (fst (ocl_probe_validate b), snd (ocl_probe_validate b), e')"
    using assms by (simp add: ocl_probe_def split: prod.splits)
  show ?thesis
    unfolding p fst_conv snd_conv
    using ocl_probe_validate_priv [of b] by (simp only: ocl_probe_validate_retval) simp
qed

text \<open>
  Six geometries that each violate one condition (no sector; a size of 0x10000 in 3 sectors;
  a buffer length of 0; an alignment of 24 for a buffer of 0x1000; an alignment of 0x2000 for
  a buffer of 0x1000; a buffer length of 6), and one that passes, with the alignment 0
  replaced by 1.
\<close>

theorem ocl_probe_rejects_witness:
  "fst (ocl_probe openocd_h loader unprobed_bank
     \<lparr>world = [0, 0x0ACD0000, 0x100000, 0x10000, 0, 0x10001000], trace = []\<rparr>)
     = ERROR_FLASH_BANK_INVALID \<and>
   fst (ocl_probe openocd_h loader unprobed_bank
     \<lparr>world = [0, 0x0ACD0000, 0x100000, 0x10000, 3, 0x10001000], trace = []\<rparr>)
     = ERROR_FLASH_BANK_INVALID \<and>
   fst (ocl_probe openocd_h loader unprobed_bank
     \<lparr>world = [0, 0x0ACD0000, 0x100000, 0x10000, 16, 0x10000000], trace = []\<rparr>)
     = ERROR_FLASH_BANK_INVALID \<and>
   fst (ocl_probe openocd_h loader unprobed_bank
     \<lparr>world = [0, 0x0ACD0000, 0x100000, 0x10000, 16, 0x00181000], trace = []\<rparr>)
     = ERROR_FLASH_BANK_INVALID \<and>
   fst (ocl_probe openocd_h loader unprobed_bank
     \<lparr>world = [0, 0x0ACD0000, 0x100000, 0x10000, 16, 0x20001000], trace = []\<rparr>)
     = ERROR_FLASH_BANK_INVALID \<and>
   fst (ocl_probe openocd_h loader unprobed_bank
     \<lparr>world = [0, 0x0ACD0000, 0x100000, 0x10000, 16, 0x00020006], trace = []\<rparr>)
     = ERROR_FLASH_BANK_INVALID \<and>
   fst (ocl_probe openocd_h loader unprobed_bank
     \<lparr>world = [0, 0x0ACD0000, 0x100000, 0x10000, 16, 0x00001000], trace = []\<rparr>)
     = ERROR_OK \<and>
   bufalign (driver_priv (fst (snd (ocl_probe openocd_h loader unprobed_bank
     \<lparr>world = [0, 0x0ACD0000, 0x100000, 0x10000, 16, 0x00001000], trace = []\<rparr>)))) = 1"
  using ocl_probe_rejects [OF probe_receive_loader [of 0 "0x100000" "0x10000" 0 "0x10001000"]]
    ocl_probe_rejects [OF probe_receive_loader [of 0 "0x100000" "0x10000" 3 "0x10001000"]]
    ocl_probe_rejects [OF probe_receive_loader [of 0 "0x100000" "0x10000" 16 "0x10000000"]]
    ocl_probe_rejects [OF probe_receive_loader [of 0 "0x100000" "0x10000" 16 "0x00181000"]]
    ocl_probe_rejects [OF probe_receive_loader [of 0 "0x100000" "0x10000" 16 "0x20001000"]]
    ocl_probe_rejects [OF probe_receive_loader [of 0 "0x100000" "0x10000" 16 "0x00020006"]]
    ocl_probe_rejects [OF probe_receive_loader [of 0 "0x100000" "0x10000" 16 "0x00001000"]]
  by (simp add: unprobed_bank_def)

subsection \<open>Probe: the sector table\<close>

lemma sint_small:
  assumes "unat (w :: u32) < 2147483648"
  shows "sint w = int (unat w)"
proof -
  have s: "sint w = signed_take_bit 31 (uint w)"
    using sint_uint [of w] by simp
  have lo: "- (2 ^ 31) \<le> uint w" by (rule order_trans [of _ 0]) simp_all
  from assms have "int (unat w) < int 2147483648" by (rule iffD2 [OF of_nat_less_iff])
  then have hi: "uint w < 2 ^ 31" by simp
  note s
  also have "signed_take_bit 31 (uint w) = uint w"
    using lo hi by (rule signed_take_bit_int_eq_self)
  finally show ?thesis by simp
qed

lemma sint_big:
  assumes "2147483648 \<le> unat (w :: u32)"
  shows "sint w < 0"
proof -
  have s: "sint w = signed_take_bit 31 (uint w)"
    using sint_uint [of w] by simp
  have u32: "uint w < 4294967296" using uint_lt2p [of w] by simp
  from assms have "int 2147483648 \<le> int (unat w)" by (rule iffD2 [OF of_nat_le_iff])
  then have "2 ^ 31 \<le> uint w" by simp
  then have "signed_take_bit 31 (uint w) \<le> uint w - 2 ^ Suc 31"
    by (rule signed_take_bit_int_less_eq)
  then have "sint w \<le> uint w - 4294967296" unfolding s by simp
  then show ?thesis using u32 by linarith
qed

text \<open>The table that \<^verbatim>\<open>realloc\<close> returns has an entry for every round of the sector loop.\<close>

lemma realloc_sectors_room: "length (realloc_sectors secs n) = nat (sint n)"
proof (cases "unat n < 2147483648")
  case True
  then show ?thesis by (simp add: realloc_sectors_def sint_small)
next
  case False
  then have "sint n < 0" by (intro sint_big) simp
  then show ?thesis by (simp add: realloc_sectors_def)
qed

lemma fill_sectors_eq:
  "0 \<le> i \<Longrightarrow> i \<le> sint n \<Longrightarrow> nat (sint n) \<le> length secs \<Longrightarrow>
   fill_sectors n i sectsize secs =
     take (nat i) secs @ map (mk_sector sectsize) [nat i..<nat (sint n)] @
     drop (nat (sint n)) secs"
proof (induction "nat (sint n - i)" arbitrary: i secs)
  case 0
  then have "i = sint n" by simp
  then show ?case by (subst fill_sectors.simps) simp
next
  case (Suc k)
  then have lt: "i < sint n" by linarith
  have ni: "nat (i + 1) = Suc (nat i)" using Suc.prems(1) by simp
  have k: "k = nat (sint n - (i + 1))" using Suc.hyps(2) by linarith
  have "fill_sectors n i sectsize secs =
        fill_sectors n (i + 1) sectsize (secs[nat i := mk_sector sectsize (nat i)])"
    using lt by (subst fill_sectors.simps) simp
  also have "\<dots> = take (nat (i + 1)) (secs[nat i := mk_sector sectsize (nat i)]) @
      map (mk_sector sectsize) [nat (i + 1)..<nat (sint n)] @
      drop (nat (sint n)) (secs[nat i := mk_sector sectsize (nat i)])"
    using k Suc.prems lt by (intro Suc.hyps(1)) simp_all
  also have "\<dots> = take (nat i) secs @ map (mk_sector sectsize) [nat i..<nat (sint n)] @
      drop (nat (sint n)) secs"
  proof -
    have a: "nat i < nat (sint n)" using Suc.prems(1) lt by simp
    have b: "nat i < length secs" using a Suc.prems(3) by (rule less_le_trans)
    show ?thesis
      unfolding ni using a b by (simp add: take_Suc_conv_app_nth upt_rec [of "nat i"])
  qed
  finally show ?case .
qed

lemma fill_sectors_none: "sint n < 0 \<Longrightarrow> fill_sectors n 0 sectsize secs = secs"
  by (subst fill_sectors.simps) simp

lemma length_realloc_sectors:
  "unat n < 2147483648 \<Longrightarrow> length (realloc_sectors secs n) = unat n"
  by (simp add: realloc_sectors_def sint_small)

lemma fill_all_sectors:
  assumes "unat n < 2147483648"
  shows "fill_sectors n 0 sectsize (realloc_sectors secs n) =
         map (mk_sector sectsize) [0..<unat n]"
proof -
  have s: "sint n = int (unat n)" using assms by (rule sint_small)
  have l: "length (realloc_sectors secs n) = unat n" using assms by (rule length_realloc_sectors)
  show ?thesis
    using fill_sectors_eq [of 0 n "realloc_sectors secs n" sectsize] by (simp add: s l)
qed

lemma unat_sector_offset:
  assumes "n * unat (sectsize :: u32) < 2 ^ 32" and "n < 2 ^ 32" and "k \<le> n"
  shows "unat (of_nat k * sectsize :: u32) = k * unat sectsize"
proof -
  have "k * unat sectsize \<le> n * unat sectsize"
    using assms(3) by (rule mult_le_mono1)
  then have "k * unat sectsize < 2 ^ 32" using assms(1) by (rule order.strict_trans1)
  moreover have "k < 2 ^ 32" using assms(2,3) by simp
  ultimately show ?thesis
    by (simp add: unat_word_ariths unat_of_nat)
qed

lemma tiles_mk_sector:
  "n * unat sectsize < 2 ^ 32 \<Longrightarrow> n < 2 ^ 32 \<Longrightarrow> k \<le> n \<Longrightarrow>
   tiles (k * unat sectsize) (map (mk_sector sectsize) [k..<n]) (n * unat sectsize)"
proof (induction "n - k" arbitrary: k)
  case 0
  then show ?case by simp
next
  case (Suc d)
  then have kn: "k < n" by simp
  have "unat (of_nat k * sectsize) = k * unat sectsize"
    using Suc.prems by (intro unat_sector_offset [of n]) simp_all
  moreover have "tiles (Suc k * unat sectsize) (map (mk_sector sectsize) [Suc k..<n])
      (n * unat sectsize)"
    using Suc by (intro Suc.hyps(1)) auto
  ultimately show ?case
    using kn by (simp add: upt_rec [of k] mk_sector_def add.commute)
qed

lemma ocl_probe_validate_sectors:
  assumes "ocl_probe_validate b = (ERROR_OK, b')" and "unat (num_sectors b) < 2147483648"
  shows "sectors b' = map (mk_sector (bank_size b div num_sectors b)) [0..<unat (num_sectors b)]"
    and "bank_size b' = bank_size b" and "num_sectors b' = num_sectors b"
    and "num_sectors b \<noteq> 0" and "bank_size b mod num_sectors b = 0"
  using assms
  by (auto simp: ocl_probe_validate_def Let_def fill_all_sectors split: if_splits)

lemma ocl_probe_validate_no_sectors:
  assumes "ocl_probe_validate b = (r, b')" and "2147483648 \<le> unat (num_sectors b)"
  shows "sectors b' = []"
proof -
  have s: "sint (num_sectors b) < 0" using assms(2) by (rule sint_big)
  show ?thesis
    using assms(1) s
    by (auto simp: ocl_probe_validate_def Let_def realloc_sectors_def fill_sectors_none
        split: if_splits)
qed

lemma ocl_probe_OK:
  assumes "fst (ocl_probe K J bank e) = ERROR_OK"
  shows "ocl_probe_validate (fst (snd (ocl_probe_receive K J bank e))) =
         (ERROR_OK, fst (snd (ocl_probe K J bank e)))"
  using assms by (auto simp: ocl_probe_def split: prod.splits if_splits)

text \<open>
  The sector table of a successful probe that reports fewer than \<open>2^31\<close> sectors: the bank
  holds the reported size and sector count and exactly \<open>num_sectors\<close> sectors; each has the
  size \<open>bank_size div num_sectors\<close>, sector \<open>i\<close> is at offset \<open>i\<close> times that size, and
  in order the sectors tile the bytes from 0 to \<open>bank_size\<close>: they are contiguous, do not
  overlap and cover the bank.
\<close>

theorem ocl_probe_sectors:
  assumes "fst (ocl_probe K J bank e) = ERROR_OK"
    and "unat (num_sectors (fst (snd (ocl_probe_receive K J bank e)))) < 2 ^ 31"
  shows "bank_size (fst (snd (ocl_probe K J bank e))) =
           bank_size (fst (snd (ocl_probe_receive K J bank e))) \<and>
         num_sectors (fst (snd (ocl_probe K J bank e))) =
           num_sectors (fst (snd (ocl_probe_receive K J bank e))) \<and>
         length (sectors (fst (snd (ocl_probe K J bank e)))) =
           unat (num_sectors (fst (snd (ocl_probe K J bank e)))) \<and>
         (\<forall>i < unat (num_sectors (fst (snd (ocl_probe K J bank e)))).
           sector_size (sectors (fst (snd (ocl_probe K J bank e))) ! i) =
             bank_size (fst (snd (ocl_probe K J bank e))) div
             num_sectors (fst (snd (ocl_probe K J bank e))) \<and>
           unat (sector_offset (sectors (fst (snd (ocl_probe K J bank e))) ! i)) =
             i * unat (bank_size (fst (snd (ocl_probe K J bank e))) div
                       num_sectors (fst (snd (ocl_probe K J bank e))))) \<and>
         tiles 0 (sectors (fst (snd (ocl_probe K J bank e))))
           (unat (bank_size (fst (snd (ocl_probe K J bank e)))))"
proof -
  define b where "b = fst (snd (ocl_probe K J bank e))"
  define b0 where "b0 = fst (snd (ocl_probe_receive K J bank e))"
  have v: "ocl_probe_validate b0 = (ERROR_OK, b)"
    unfolding b_def b0_def using assms(1) by (rule ocl_probe_OK)
  have n31: "unat (num_sectors b0) < 2147483648"
    using assms(2) unfolding b0_def by simp
  note f = ocl_probe_validate_sectors [OF v n31]
  define N where "N = num_sectors b"
  define S where "S = bank_size b"
  have N0: "N \<noteq> 0" and dv: "S mod N = 0"
    using f by (simp_all add: N_def S_def)
  have secs: "sectors b = map (mk_sector (S div N)) [0..<unat N]"
    using f by (simp add: N_def S_def)
  have "unat S mod unat N = 0"
    using dv by (metis unat_mod unat_0)
  then have prod: "unat N * unat (S div N) = unat S"
    using mult_div_mod_eq [of "unat N" "unat S"] by (simp add: unat_div)
  then have lt: "unat N * unat (S div N) < 2 ^ 32"
    using unsigned_less [of S] by simp
  have N32: "unat N < 2 ^ 32" using unsigned_less [of N] by simp
  have 0: "bank_size b = bank_size b0" "num_sectors b = num_sectors b0"
    using f by simp_all
  have 1: "length (sectors b) = unat N"
    by (simp add: secs)
  have 2: "\<forall>i < unat N. sector_size (sectors b ! i) = S div N \<and>
           unat (sector_offset (sectors b ! i)) = i * unat (S div N)"
  proof (intro allI impI)
    fix i assume i: "i < unat N"
    have "unat (of_nat i * (S div N)) = i * unat (S div N)"
      using lt N32 i by (intro unat_sector_offset [of "unat N"]) simp_all
    then show "sector_size (sectors b ! i) = S div N \<and>
           unat (sector_offset (sectors b ! i)) = i * unat (S div N)"
      using i by (simp add: secs mk_sector_def)
  qed
  have 3: "tiles 0 (sectors b) (unat S)"
    using tiles_mk_sector [OF lt N32, of 0] prod by (simp add: secs)
  show ?thesis
    using 0 1 2 3 unfolding N_def S_def b_def b0_def by blast
qed

text \<open>A bank of 0x10000 bytes in 16 sectors: 16 sectors of 0x1000 bytes at 0, 0x1000, ..., 0xF000.\<close>

lemma probe16:
  "ocl_probe openocd_h loader unprobed_bank
     \<lparr>world = [0, 0x0ACD0000, 0x100000, 0x10000, 16, 0x10001000], trace = []\<rparr> =
   (ERROR_OK,
    unprobed_bank\<lparr>bank_base := 0x100000, bank_size := 0x10000, num_sectors := 16,
      sectors := map (mk_sector 0x1000) [0..<16],
      driver_priv := \<lparr>buflen = 0x1000, bufalign = 0x1000\<rparr>\<rparr>,
    \<lparr>world = [],
     trace = [Receive, Send [0x0CBE0000], Handshake 1 1000, Receive, Handshake 1 0, Receive,
              Handshake 1 0, Receive, Handshake 1 0, Receive, Handshake 1 0, Receive]\<rparr>)"
proof -
  have "fill_sectors 16 0 sectsize (realloc_sectors secs 16) =
        map (mk_sector sectsize) [0..<16]" for sectsize secs
    using fill_all_sectors [of 16 sectsize secs] by simp
  then show ?thesis
    unfolding ocl_probe_def probe_receive_loader
    by (simp add: ocl_probe_validate_def Let_def unprobed_bank_def)
qed

theorem ocl_probe_sectors_witness:
  "fst (ocl_probe openocd_h loader unprobed_bank
     \<lparr>world = [0, 0x0ACD0000, 0x100000, 0x10000, 16, 0x10001000], trace = []\<rparr>) = ERROR_OK \<and>
   length (sectors (fst (snd (ocl_probe openocd_h loader unprobed_bank
     \<lparr>world = [0, 0x0ACD0000, 0x100000, 0x10000, 16, 0x10001000], trace = []\<rparr>)))) = 16 \<and>
   map (\<lambda>s. (sector_offset s, sector_size s))
     (sectors (fst (snd (ocl_probe openocd_h loader unprobed_bank
     \<lparr>world = [0, 0x0ACD0000, 0x100000, 0x10000, 16, 0x10001000], trace = []\<rparr>)))) =
     [(0, 0x1000), (0x1000, 0x1000), (0x2000, 0x1000), (0x3000, 0x1000),
      (0x4000, 0x1000), (0x5000, 0x1000), (0x6000, 0x1000), (0x7000, 0x1000),
      (0x8000, 0x1000), (0x9000, 0x1000), (0xA000, 0x1000), (0xB000, 0x1000),
      (0xC000, 0x1000), (0xD000, 0x1000), (0xE000, 0x1000), (0xF000, 0x1000)] \<and>
   tiles 0 (sectors (fst (snd (ocl_probe openocd_h loader unprobed_bank
     \<lparr>world = [0, 0x0ACD0000, 0x100000, 0x10000, 16, 0x10001000], trace = []\<rparr>))))
     0x10000"
proof -
  have "map (\<lambda>s. (sector_offset s, sector_size s)) (map (mk_sector 0x1000) [0..<16]) =
     [(0, 0x1000), (0x1000, 0x1000), (0x2000, 0x1000), (0x3000, 0x1000),
      (0x4000, 0x1000), (0x5000, 0x1000), (0x6000, 0x1000), (0x7000, 0x1000),
      (0x8000, 0x1000), (0x9000, 0x1000), (0xA000, 0x1000), (0xB000, 0x1000),
      (0xC000, 0x1000), (0xD000, 0x1000), (0xE000, 0x1000), (0xF000, 0x1000)]"
    by code_simp
  then show ?thesis
    using ocl_probe_sectors [of openocd_h loader unprobed_bank
        "\<lparr>world = [0, 0x0ACD0000, 0x100000, 0x10000, 16, 0x10001000], trace = []\<rparr>"]
    unfolding probe16 probe_receive_loader by (simp add: unprobed_bank_def)
qed

text \<open>
  C8 fails on the code for a sector count of \<open>2^31\<close> or more. A loader that reports a size
  of 0x80000000 in 0x80000000 sectors passes every check of the probe. The count is negative
  as an \<^verbatim>\<open>int\<close>: \<^verbatim>\<open>realloc\<close> has no table for it and the sector loop does not run. The probe
  returns \<open>ERROR_OK\<close>, and the bank holds the reported size and count and no sector at all,
  where C8 has \<open>2^31\<close> sectors of one byte.
\<close>

theorem ocl_probe_sectors_missing:
  "ocl_probe openocd_h loader unprobed_bank
     \<lparr>world = [0, 0x0ACD0000, 0x100000, 0x80000000, 0x80000000, 0x10001000], trace = []\<rparr> =
   (ERROR_OK,
    \<lparr>bank_base = 0x100000, bank_size = 0x80000000, num_sectors = 0x80000000, sectors = [],
     driver_priv = \<lparr>buflen = 0x1000, bufalign = 0x1000\<rparr>, target = TARGET_RUNNING\<rparr>,
    \<lparr>world = [],
     trace = [Receive, Send [0x0CBE0000], Handshake 1 1000, Receive, Handshake 1 0, Receive,
              Handshake 1 0, Receive, Handshake 1 0, Receive, Handshake 1 0, Receive]\<rparr>) \<and>
   unat (0x80000000 :: u32) = 2147483648 \<and>
   0x80000000 div (0x80000000 :: u32) = 1"
proof -
  have s: "sint (0x80000000 :: u32) < 0" by (rule sint_big) simp
  have r: "realloc_sectors secs 0x80000000 = []" for secs
    using s by (simp add: realloc_sectors_def)
  have f: "fill_sectors 0x80000000 0 sectsize secs = secs" for sectsize secs
    using s by (rule fill_sectors_none)
  show ?thesis
    unfolding ocl_probe_def probe_receive_loader
    by (simp add: ocl_probe_validate_def Let_def r f unprobed_bank_def
        ocl_flash_bank_command_def)
qed

subsection \<open>Probe: failure\<close>

lemma ocl_probe_split:
  "ocl_probe K J bank e =
     (if fst (ocl_probe_receive K J bank e) \<noteq> ERROR_OK then ocl_probe_receive K J bank e
      else (fst (ocl_probe_validate (fst (snd (ocl_probe_receive K J bank e)))),
            snd (ocl_probe_validate (fst (snd (ocl_probe_receive K J bank e)))),
            snd (snd (ocl_probe_receive K J bank e))))"
  by (simp add: ocl_probe_def split: prod.splits)

lemma ocl_probe_validate_geometry:
  "bank_base (snd (ocl_probe_validate b)) = bank_base b"
  "bank_size (snd (ocl_probe_validate b)) = bank_size b"
  "bufalign (driver_priv (snd (ocl_probe_validate b))) =
     (if bufalign (driver_priv b) = 0 \<and> num_sectors b \<noteq> 0 \<and> bank_size b mod num_sectors b = 0
      then 1 else bufalign (driver_priv b))"
  by (simp_all add: ocl_probe_validate_def Let_def)

lemma ocl_probe_receive_words:
  assumes "embeddedice_send J [OCL_PROBE K] (snd (snd (embeddedice_receive J e))) = (ERROR_OK, e1)"
    and "embeddedice_handshake J (EICE_COMM_CTRL_WBIT K) 1000 e1 = (ERROR_OK, e2)"
    and "embeddedice_receive J e2 = (ERROR_OK, OCL_CMD_DONE K, e3)"
    and "probe_word K J e3 = (Some d1, e4)"
  shows "probe_word K J e4 = (None, e5) \<Longrightarrow>
           ocl_probe_receive K J bank e = (C_INT 1, bank\<lparr>bank_base := d1\<rparr>, e5)"
    and "probe_word K J e4 = (Some d2, e5) \<Longrightarrow> probe_word K J e5 = (None, e6) \<Longrightarrow>
           ocl_probe_receive K J bank e =
             (C_INT 1, bank\<lparr>bank_base := d1, bank_size := d2\<rparr>, e6)"
    and "probe_word K J e4 = (Some d2, e5) \<Longrightarrow> probe_word K J e5 = (Some d3, e6) \<Longrightarrow>
         probe_word K J e6 = (None, e7) \<Longrightarrow>
           ocl_probe_receive K J bank e =
             (C_INT 1, bank\<lparr>bank_base := d1, bank_size := d2, num_sectors := d3\<rparr>, e7)"
    and "probe_word K J e4 = (Some d2, e5) \<Longrightarrow> probe_word K J e5 = (Some d3, e6) \<Longrightarrow>
         probe_word K J e6 = (Some d4, e7) \<Longrightarrow>
           ocl_probe_receive K J bank e =
             (ERROR_OK,
              bank\<lparr>bank_base := d1, bank_size := d2, num_sectors := d3,
                driver_priv := \<lparr>buflen = d4 AND 0xffff, bufalign = drop_bit 16 d4\<rparr>\<rparr>, e7)"
  using assms by (simp_all add: ocl_probe_receive_def case_prod_beta)


lemma ocl_probe_keeps_received:
  "bank_base (fst (snd (ocl_probe K J bank e))) =
     bank_base (fst (snd (ocl_probe_receive K J bank e)))"
  "bank_size (fst (snd (ocl_probe K J bank e))) =
     bank_size (fst (snd (ocl_probe_receive K J bank e)))"
  "num_sectors (fst (snd (ocl_probe K J bank e))) =
     num_sectors (fst (snd (ocl_probe_receive K J bank e)))"
  "buflen (driver_priv (fst (snd (ocl_probe K J bank e)))) =
     buflen (driver_priv (fst (snd (ocl_probe_receive K J bank e))))"
  by (simp_all add: ocl_probe_split ocl_probe_validate_keeps ocl_probe_validate_geometry)

lemma ocl_probe_receive_stored:
  assumes "embeddedice_send J [OCL_PROBE K] (snd (snd (embeddedice_receive J e))) = (ERROR_OK, e1)"
    and "embeddedice_handshake J (EICE_COMM_CTRL_WBIT K) 1000 e1 = (ERROR_OK, e2)"
    and "embeddedice_receive J e2 = (ERROR_OK, OCL_CMD_DONE K, e3)"
    and "probe_word K J e3 = (Some d1, e4)"
  shows "bank_base (fst (snd (ocl_probe_receive K J bank e))) = d1"
    and "probe_word K J e4 = (Some d2, e5) \<Longrightarrow>
           bank_size (fst (snd (ocl_probe_receive K J bank e))) = d2"
    and "probe_word K J e4 = (Some d2, e5) \<Longrightarrow> probe_word K J e5 = (Some d3, e6) \<Longrightarrow>
           num_sectors (fst (snd (ocl_probe_receive K J bank e))) = d3"
  using assms
  by (simp_all add: ocl_probe_receive_def case_prod_beta split: option.splits)

lemma ocl_probe_stored:
  assumes o: "embeddedice_send J [OCL_PROBE K] (snd (snd (embeddedice_receive J e))) = (ERROR_OK, e1)"
      "embeddedice_handshake J (EICE_COMM_CTRL_WBIT K) 1000 e1 = (ERROR_OK, e2)"
      "embeddedice_receive J e2 = (ERROR_OK, OCL_CMD_DONE K, e3)"
      "probe_word K J e3 = (Some d1, e4)"
  shows "bank_base (fst (snd (ocl_probe K J bank e))) = d1"
    and "probe_word K J e4 = (None, e5) \<Longrightarrow>
           fst (snd (ocl_probe K J bank e)) = bank\<lparr>bank_base := d1\<rparr>"
    and "probe_word K J e4 = (Some d2, e5) \<Longrightarrow>
           bank_size (fst (snd (ocl_probe K J bank e))) = d2"
    and "probe_word K J e4 = (Some d2, e5) \<Longrightarrow> probe_word K J e5 = (None, e6) \<Longrightarrow>
           fst (snd (ocl_probe K J bank e)) = bank\<lparr>bank_base := d1, bank_size := d2\<rparr>"
    and "probe_word K J e4 = (Some d2, e5) \<Longrightarrow> probe_word K J e5 = (Some d3, e6) \<Longrightarrow>
           num_sectors (fst (snd (ocl_probe K J bank e))) = d3"
    and "probe_word K J e4 = (Some d2, e5) \<Longrightarrow> probe_word K J e5 = (Some d3, e6) \<Longrightarrow>
         probe_word K J e6 = (None, e7) \<Longrightarrow>
           fst (snd (ocl_probe K J bank e)) =
             bank\<lparr>bank_base := d1, bank_size := d2, num_sectors := d3\<rparr>"
    and "probe_word K J e4 = (Some d2, e5) \<Longrightarrow> probe_word K J e5 = (Some d3, e6) \<Longrightarrow>
         probe_word K J e6 = (Some d4, e7) \<Longrightarrow>
           buflen (driver_priv (fst (snd (ocl_probe K J bank e)))) = d4 AND 0xffff \<and>
           bufalign (driver_priv (fst (snd (ocl_probe K J bank e)))) =
             (if drop_bit 16 d4 = 0 \<and> d3 \<noteq> 0 \<and> d2 mod d3 = 0 then 1 else drop_bit 16 d4)"
proof -
  show "bank_base (fst (snd (ocl_probe K J bank e))) = d1"
    unfolding ocl_probe_keeps_received using o by (rule ocl_probe_receive_stored)
  show "bank_size (fst (snd (ocl_probe K J bank e))) = d2"
    if "probe_word K J e4 = (Some d2, e5)"
    unfolding ocl_probe_keeps_received using o that by (rule ocl_probe_receive_stored)
  show "num_sectors (fst (snd (ocl_probe K J bank e))) = d3"
    if "probe_word K J e4 = (Some d2, e5)" "probe_word K J e5 = (Some d3, e6)"
    unfolding ocl_probe_keeps_received using o that by (rule ocl_probe_receive_stored)
  show "fst (snd (ocl_probe K J bank e)) = bank\<lparr>bank_base := d1\<rparr>"
    if "probe_word K J e4 = (None, e5)"
    using ocl_probe_receive_words(1) [OF o that, of bank] by (simp add: ocl_probe_split)
  show "fst (snd (ocl_probe K J bank e)) = bank\<lparr>bank_base := d1, bank_size := d2\<rparr>"
    if "probe_word K J e4 = (Some d2, e5)" "probe_word K J e5 = (None, e6)"
    using ocl_probe_receive_words(2) [OF o that, of bank] by (simp add: ocl_probe_split)
  show "fst (snd (ocl_probe K J bank e)) =
             bank\<lparr>bank_base := d1, bank_size := d2, num_sectors := d3\<rparr>"
    if "probe_word K J e4 = (Some d2, e5)" "probe_word K J e5 = (Some d3, e6)"
      "probe_word K J e6 = (None, e7)"
    using ocl_probe_receive_words(3) [OF o that, of bank] by (simp add: ocl_probe_split)
  show "buflen (driver_priv (fst (snd (ocl_probe K J bank e)))) = d4 AND 0xffff \<and>
           bufalign (driver_priv (fst (snd (ocl_probe K J bank e)))) =
             (if drop_bit 16 d4 = 0 \<and> d3 \<noteq> 0 \<and> d2 mod d3 = 0 then 1 else drop_bit 16 d4)"
    if "probe_word K J e4 = (Some d2, e5)" "probe_word K J e5 = (Some d3, e6)"
      "probe_word K J e6 = (Some d4, e7)"
    using ocl_probe_receive_words(4) [OF o that, of bank]
    by (simp add: ocl_probe_split ocl_probe_validate_keeps ocl_probe_validate_geometry)
qed

text \<open>
  C7, as the code has it. A failed probe keeps what it has stored. When it fails before the
  geometry is complete (a transport error or a response that is not \<open>OCL_CMD_DONE\<close>), the
  driver's \<open>buflen\<close> and \<open>bufalign\<close> are as before, so that a bank that was not probed
  still rejects a write as not probed. When it is rejected for a sector count of 0, every
  later erase fails with \<open>ERROR_FLASH_BANK_NOT_PROBED\<close>; when it is rejected for a buffer
  length of 0, every later write and auto-probe fails with \<open>ERROR_FLASH_BANK_NOT_PROBED\<close>.
  The words kept: when the loader has acknowledged the probe command (\<open>es\<close>, \<open>eh\<close>,
  \<open>er\<close> are the states of the transport after the command, the handshake and the response)
  and the first geometry word \<open>b\<close> has arrived, the bank of the failed probe has the base
  \<open>b\<close>; when the next word fails, the bank is the old one with this base and nothing else
  changed. In the same way it has the size \<open>s\<close> and the sector count \<open>n\<close> as soon as
  they have arrived, and after the fourth word \<open>w\<close>, when the probe is rejected, also the
  buffer length of \<open>w\<close> and its alignment, which is 1 in place of 0 when the sector checks
  have passed.
\<close>

theorem ocl_probe_failure:
  assumes "fst (ocl_probe K J bank e) \<noteq> ERROR_OK"
  shows
   "(fst (ocl_probe_receive K J bank e) \<noteq> ERROR_OK \<longrightarrow>
       driver_priv (fst (snd (ocl_probe K J bank e))) = driver_priv bank \<and>
       (buflen (driver_priv bank) = 0 \<longrightarrow>
          ocl_write fuel K' J' (fst (snd (ocl_probe K J bank e))) buf offs cnt e' =
            Some (Inr (ERROR_FLASH_BANK_NOT_PROBED, e')))) \<and>
    (fst (ocl_probe_receive K J bank e) = ERROR_OK \<and>
     num_sectors (fst (snd (ocl_probe_receive K J bank e))) = 0 \<longrightarrow>
       ocl_erase K' J' (fst (snd (ocl_probe K J bank e))) first last' e' =
         (ERROR_FLASH_BANK_NOT_PROBED, e')) \<and>
    (fst (ocl_probe_receive K J bank e) = ERROR_OK \<and>
     buflen (driver_priv (fst (snd (ocl_probe_receive K J bank e)))) = 0 \<longrightarrow>
       ocl_write fuel K' J' (fst (snd (ocl_probe K J bank e))) buf offs cnt e' =
         Some (Inr (ERROR_FLASH_BANK_NOT_PROBED, e')) \<and>
       ocl_auto_probe (fst (snd (ocl_probe K J bank e))) = ERROR_FLASH_BANK_NOT_PROBED) \<and>
    (embeddedice_send J [OCL_PROBE K] (snd (snd (embeddedice_receive J e))) = (ERROR_OK, es) \<and>
     embeddedice_handshake J (EICE_COMM_CTRL_WBIT K) 1000 es = (ERROR_OK, eh) \<and>
     embeddedice_receive J eh = (ERROR_OK, OCL_CMD_DONE K, er) \<and>
     probe_word K J er = (Some b, ea) \<longrightarrow>
       bank_base (fst (snd (ocl_probe K J bank e))) = b \<and>
       (probe_word K J ea = (None, eb) \<longrightarrow>
          fst (snd (ocl_probe K J bank e)) = bank\<lparr>bank_base := b\<rparr>) \<and>
       (probe_word K J ea = (Some s, eb) \<longrightarrow>
          bank_size (fst (snd (ocl_probe K J bank e))) = s \<and>
          (probe_word K J eb = (None, ec) \<longrightarrow>
             fst (snd (ocl_probe K J bank e)) = bank\<lparr>bank_base := b, bank_size := s\<rparr>) \<and>
          (probe_word K J eb = (Some n, ec) \<longrightarrow>
             num_sectors (fst (snd (ocl_probe K J bank e))) = n \<and>
             (probe_word K J ec = (None, ed) \<longrightarrow>
                fst (snd (ocl_probe K J bank e)) =
                  bank\<lparr>bank_base := b, bank_size := s, num_sectors := n\<rparr>) \<and>
             (probe_word K J ec = (Some w, ed) \<longrightarrow>
                buflen (driver_priv (fst (snd (ocl_probe K J bank e)))) = w AND 0xffff \<and>
                bufalign (driver_priv (fst (snd (ocl_probe K J bank e)))) =
                  (if drop_bit 16 w = 0 \<and> n \<noteq> 0 \<and> s mod n = 0
                   then 1 else drop_bit 16 w)))))"
proof -
  have a: "fst (ocl_probe_receive K J bank e) \<noteq> ERROR_OK \<longrightarrow>
       driver_priv (fst (snd (ocl_probe K J bank e))) = driver_priv bank \<and>
       (buflen (driver_priv bank) = 0 \<longrightarrow>
          ocl_write fuel K' J' (fst (snd (ocl_probe K J bank e))) buf offs cnt e' =
            Some (Inr (ERROR_FLASH_BANK_NOT_PROBED, e')))"
  proof (intro conjI impI)
    assume f: "fst (ocl_probe_receive K J bank e) \<noteq> ERROR_OK"
    then have "ocl_probe K J bank e = ocl_probe_receive K J bank e"
      by (simp add: ocl_probe_split)
    then show p: "driver_priv (fst (snd (ocl_probe K J bank e))) = driver_priv bank"
      using f ocl_probe_receive_priv [of K J bank e] by auto
    assume "buflen (driver_priv bank) = 0"
    then show "ocl_write fuel K' J' (fst (snd (ocl_probe K J bank e))) buf offs cnt e' =
            Some (Inr (ERROR_FLASH_BANK_NOT_PROBED, e'))"
      using p by (simp add: ocl_write_def)
  qed
  have b: "fst (ocl_probe_receive K J bank e) = ERROR_OK \<and>
     num_sectors (fst (snd (ocl_probe_receive K J bank e))) = 0 \<longrightarrow>
       ocl_erase K' J' (fst (snd (ocl_probe K J bank e))) first last' e' =
         (ERROR_FLASH_BANK_NOT_PROBED, e')"
  proof
    assume "fst (ocl_probe_receive K J bank e) = ERROR_OK \<and>
     num_sectors (fst (snd (ocl_probe_receive K J bank e))) = 0"
    then have "num_sectors (fst (snd (ocl_probe K J bank e))) = 0"
      by (simp add: ocl_probe_split ocl_probe_validate_keeps)
    then show "ocl_erase K' J' (fst (snd (ocl_probe K J bank e))) first last' e' =
         (ERROR_FLASH_BANK_NOT_PROBED, e')"
      by (simp add: ocl_erase_def)
  qed
  have c: "fst (ocl_probe_receive K J bank e) = ERROR_OK \<and>
     buflen (driver_priv (fst (snd (ocl_probe_receive K J bank e)))) = 0 \<longrightarrow>
       ocl_write fuel K' J' (fst (snd (ocl_probe K J bank e))) buf offs cnt e' =
         Some (Inr (ERROR_FLASH_BANK_NOT_PROBED, e')) \<and>
       ocl_auto_probe (fst (snd (ocl_probe K J bank e))) = ERROR_FLASH_BANK_NOT_PROBED"
  proof (intro conjI impI)
    assume "fst (ocl_probe_receive K J bank e) = ERROR_OK \<and>
     buflen (driver_priv (fst (snd (ocl_probe_receive K J bank e)))) = 0"
    then have z: "buflen (driver_priv (fst (snd (ocl_probe K J bank e)))) = 0"
      by (simp add: ocl_probe_split ocl_probe_validate_keeps)
    then show "ocl_write fuel K' J' (fst (snd (ocl_probe K J bank e))) buf offs cnt e' =
         Some (Inr (ERROR_FLASH_BANK_NOT_PROBED, e'))"
      by (simp add: ocl_write_def)
    show "ocl_auto_probe (fst (snd (ocl_probe K J bank e))) = ERROR_FLASH_BANK_NOT_PROBED"
      using z by (simp add: ocl_auto_probe_def)
  qed
  have d: "embeddedice_send J [OCL_PROBE K] (snd (snd (embeddedice_receive J e))) = (ERROR_OK, es) \<and>
     embeddedice_handshake J (EICE_COMM_CTRL_WBIT K) 1000 es = (ERROR_OK, eh) \<and>
     embeddedice_receive J eh = (ERROR_OK, OCL_CMD_DONE K, er) \<and>
     probe_word K J er = (Some b, ea) \<longrightarrow>
       bank_base (fst (snd (ocl_probe K J bank e))) = b \<and>
       (probe_word K J ea = (None, eb) \<longrightarrow>
          fst (snd (ocl_probe K J bank e)) = bank\<lparr>bank_base := b\<rparr>) \<and>
       (probe_word K J ea = (Some s, eb) \<longrightarrow>
          bank_size (fst (snd (ocl_probe K J bank e))) = s \<and>
          (probe_word K J eb = (None, ec) \<longrightarrow>
             fst (snd (ocl_probe K J bank e)) = bank\<lparr>bank_base := b, bank_size := s\<rparr>) \<and>
          (probe_word K J eb = (Some n, ec) \<longrightarrow>
             num_sectors (fst (snd (ocl_probe K J bank e))) = n \<and>
             (probe_word K J ec = (None, ed) \<longrightarrow>
                fst (snd (ocl_probe K J bank e)) =
                  bank\<lparr>bank_base := b, bank_size := s, num_sectors := n\<rparr>) \<and>
             (probe_word K J ec = (Some w, ed) \<longrightarrow>
                buflen (driver_priv (fst (snd (ocl_probe K J bank e)))) = w AND 0xffff \<and>
                bufalign (driver_priv (fst (snd (ocl_probe K J bank e)))) =
                  (if drop_bit 16 w = 0 \<and> n \<noteq> 0 \<and> s mod n = 0
                   then 1 else drop_bit 16 w))))"
  proof (intro impI, elim conjE)
    assume o: "embeddedice_send J [OCL_PROBE K] (snd (snd (embeddedice_receive J e))) = (ERROR_OK, es)"
      "embeddedice_handshake J (EICE_COMM_CTRL_WBIT K) 1000 es = (ERROR_OK, eh)"
      "embeddedice_receive J eh = (ERROR_OK, OCL_CMD_DONE K, er)"
      "probe_word K J er = (Some b, ea)"
    note kept = ocl_probe_stored [OF o]
    show "bank_base (fst (snd (ocl_probe K J bank e))) = b \<and>
       (probe_word K J ea = (None, eb) \<longrightarrow>
          fst (snd (ocl_probe K J bank e)) = bank\<lparr>bank_base := b\<rparr>) \<and>
       (probe_word K J ea = (Some s, eb) \<longrightarrow>
          bank_size (fst (snd (ocl_probe K J bank e))) = s \<and>
          (probe_word K J eb = (None, ec) \<longrightarrow>
             fst (snd (ocl_probe K J bank e)) = bank\<lparr>bank_base := b, bank_size := s\<rparr>) \<and>
          (probe_word K J eb = (Some n, ec) \<longrightarrow>
             num_sectors (fst (snd (ocl_probe K J bank e))) = n \<and>
             (probe_word K J ec = (None, ed) \<longrightarrow>
                fst (snd (ocl_probe K J bank e)) =
                  bank\<lparr>bank_base := b, bank_size := s, num_sectors := n\<rparr>) \<and>
             (probe_word K J ec = (Some w, ed) \<longrightarrow>
                buflen (driver_priv (fst (snd (ocl_probe K J bank e)))) = w AND 0xffff \<and>
                bufalign (driver_priv (fst (snd (ocl_probe K J bank e)))) =
                  (if drop_bit 16 w = 0 \<and> n \<noteq> 0 \<and> s mod n = 0
                   then 1 else drop_bit 16 w))))"
      by (intro conjI impI;
          (rule kept(1-6) kept(7) [THEN conjunct1] kept(7) [THEN conjunct2]; assumption))
  qed
  show ?thesis
    by (rule conjI [OF a conjI [OF b conjI [OF c d]]])
qed

text \<open>
  A probe with no answer from the loader, a probe that reports no sector and a probe that
  reports a buffer length of 0; a probe whose loader stops after the base address, which
  leaves the base 0x100000 in the bank, and a probe that is rejected for a size of 0x10000 in
  3 sectors, which leaves the base, the size, the 3 sectors and the buffer of 4 bytes.
\<close>

theorem ocl_probe_failure_witness:
  "fst (ocl_probe openocd_h loader unprobed_bank \<lparr>world = [], trace = []\<rparr>) = C_INT 1 \<and>
   driver_priv (fst (snd (ocl_probe openocd_h loader unprobed_bank
     \<lparr>world = [], trace = []\<rparr>))) = \<lparr>buflen = 0, bufalign = 1\<rparr> \<and>
   ocl_write 1 openocd_h loader
     (fst (snd (ocl_probe openocd_h loader unprobed_bank \<lparr>world = [], trace = []\<rparr>)))
     [1, 2] 0 2 \<lparr>world = [], trace = []\<rparr> =
     Some (Inr (ERROR_FLASH_BANK_NOT_PROBED, \<lparr>world = [], trace = []\<rparr>)) \<and>
   fst (ocl_probe openocd_h loader unprobed_bank
     \<lparr>world = [0, 0x0ACD0000, 0x100000, 0x10000, 0, 0x10001000], trace = []\<rparr>) =
     ERROR_FLASH_BANK_INVALID \<and>
   ocl_erase openocd_h loader
     (fst (snd (ocl_probe openocd_h loader unprobed_bank
        \<lparr>world = [0, 0x0ACD0000, 0x100000, 0x10000, 0, 0x10001000], trace = []\<rparr>)))
     0 0 \<lparr>world = [], trace = []\<rparr> =
     (ERROR_FLASH_BANK_NOT_PROBED, \<lparr>world = [], trace = []\<rparr>) \<and>
   fst (ocl_probe openocd_h loader unprobed_bank
     \<lparr>world = [0, 0x0ACD0000, 0x100000, 0x10000, 16, 0x10000000], trace = []\<rparr>) =
     ERROR_FLASH_BANK_INVALID \<and>
   ocl_write 1 openocd_h loader
     (fst (snd (ocl_probe openocd_h loader unprobed_bank
        \<lparr>world = [0, 0x0ACD0000, 0x100000, 0x10000, 16, 0x10000000], trace = []\<rparr>)))
     [1, 2] 0 2 \<lparr>world = [], trace = []\<rparr> =
     Some (Inr (ERROR_FLASH_BANK_NOT_PROBED, \<lparr>world = [], trace = []\<rparr>)) \<and>
   ocl_auto_probe
     (fst (snd (ocl_probe openocd_h loader unprobed_bank
        \<lparr>world = [0, 0x0ACD0000, 0x100000, 0x10000, 16, 0x10000000], trace = []\<rparr>))) =
     ERROR_FLASH_BANK_NOT_PROBED \<and>
   fst (ocl_probe openocd_h loader unprobed_bank
     \<lparr>world = [0, 0x0ACD0000, 0x100000], trace = []\<rparr>) = C_INT 1 \<and>
   fst (snd (ocl_probe openocd_h loader unprobed_bank
     \<lparr>world = [0, 0x0ACD0000, 0x100000], trace = []\<rparr>)) =
     unprobed_bank\<lparr>bank_base := 0x100000\<rparr> \<and>
   fst (ocl_probe openocd_h loader unprobed_bank
     \<lparr>world = [0, 0x0ACD0000, 0x100000, 0x10000, 3, 0x00040004], trace = []\<rparr>) =
     ERROR_FLASH_BANK_INVALID \<and>
   bank_base (fst (snd (ocl_probe openocd_h loader unprobed_bank
     \<lparr>world = [0, 0x0ACD0000, 0x100000, 0x10000, 3, 0x00040004], trace = []\<rparr>))) =
     0x100000 \<and>
   bank_size (fst (snd (ocl_probe openocd_h loader unprobed_bank
     \<lparr>world = [0, 0x0ACD0000, 0x100000, 0x10000, 3, 0x00040004], trace = []\<rparr>))) =
     0x10000 \<and>
   num_sectors (fst (snd (ocl_probe openocd_h loader unprobed_bank
     \<lparr>world = [0, 0x0ACD0000, 0x100000, 0x10000, 3, 0x00040004], trace = []\<rparr>))) = 3 \<and>
   driver_priv (fst (snd (ocl_probe openocd_h loader unprobed_bank
     \<lparr>world = [0, 0x0ACD0000, 0x100000, 0x10000, 3, 0x00040004], trace = []\<rparr>))) =
     \<lparr>buflen = 4, bufalign = 4\<rparr>"
proof -
  have r0: "ocl_probe_receive openocd_h loader unprobed_bank \<lparr>world = [], trace = []\<rparr> =
      (C_INT 1, unprobed_bank,
       \<lparr>world = [], trace = [Receive, Send [0x0CBE0000], Handshake 1 1000, Receive]\<rparr>)"
    by (simp add: ocl_probe_receive_def embeddedice_send_def embeddedice_handshake_def
        embeddedice_receive_def loader_def openocd_h_def)
  have p0: "fst (ocl_probe openocd_h loader unprobed_bank \<lparr>world = [], trace = []\<rparr>) = C_INT 1"
    by (simp add: ocl_probe_split r0)
  have p1: "fst (ocl_probe openocd_h loader unprobed_bank
     \<lparr>world = [0, 0x0ACD0000, 0x100000, 0x10000, 0, 0x10001000], trace = []\<rparr>) =
     ERROR_FLASH_BANK_INVALID"
    unfolding ocl_probe_split probe_receive_loader
    by (simp add: ocl_probe_validate_retval)
  have p2: "fst (ocl_probe openocd_h loader unprobed_bank
     \<lparr>world = [0, 0x0ACD0000, 0x100000, 0x10000, 16, 0x10000000], trace = []\<rparr>) =
     ERROR_FLASH_BANK_INVALID"
    unfolding ocl_probe_split probe_receive_loader
    by (simp add: ocl_probe_validate_retval)
  have old: "driver_priv (fst (snd (ocl_probe openocd_h loader unprobed_bank
       \<lparr>world = [], trace = []\<rparr>))) = \<lparr>buflen = 0, bufalign = 1\<rparr> \<and>
     ocl_write 1 openocd_h loader
       (fst (snd (ocl_probe openocd_h loader unprobed_bank \<lparr>world = [], trace = []\<rparr>)))
       [1, 2] 0 2 \<lparr>world = [], trace = []\<rparr> =
       Some (Inr (ERROR_FLASH_BANK_NOT_PROBED, \<lparr>world = [], trace = []\<rparr>)) \<and>
     ocl_erase openocd_h loader
       (fst (snd (ocl_probe openocd_h loader unprobed_bank
          \<lparr>world = [0, 0x0ACD0000, 0x100000, 0x10000, 0, 0x10001000], trace = []\<rparr>)))
       0 0 \<lparr>world = [], trace = []\<rparr> =
       (ERROR_FLASH_BANK_NOT_PROBED, \<lparr>world = [], trace = []\<rparr>) \<and>
     ocl_write 1 openocd_h loader
       (fst (snd (ocl_probe openocd_h loader unprobed_bank
          \<lparr>world = [0, 0x0ACD0000, 0x100000, 0x10000, 16, 0x10000000], trace = []\<rparr>)))
       [1, 2] 0 2 \<lparr>world = [], trace = []\<rparr> =
       Some (Inr (ERROR_FLASH_BANK_NOT_PROBED, \<lparr>world = [], trace = []\<rparr>)) \<and>
     ocl_auto_probe
       (fst (snd (ocl_probe openocd_h loader unprobed_bank
          \<lparr>world = [0, 0x0ACD0000, 0x100000, 0x10000, 16, 0x10000000], trace = []\<rparr>))) =
       ERROR_FLASH_BANK_NOT_PROBED"
    using
      ocl_probe_failure [where K = openocd_h and J = loader and bank = unprobed_bank
        and e = "\<lparr>world = [], trace = []\<rparr>" and fuel = 1 and K' = openocd_h and J' = loader
        and buf = "[1, 2]" and offs = 0 and cnt = 2 and e' = "\<lparr>world = [], trace = []\<rparr>"
        and first = 0 and last' = 0]
      ocl_probe_failure [where K = openocd_h and J = loader and bank = unprobed_bank
        and e = "\<lparr>world = [0, 0x0ACD0000, 0x100000, 0x10000, 0, 0x10001000], trace = []\<rparr>"
        and fuel = 1 and K' = openocd_h and J' = loader
        and buf = "[1, 2]" and offs = 0 and cnt = 2 and e' = "\<lparr>world = [], trace = []\<rparr>"
        and first = 0 and last' = 0]
      ocl_probe_failure [where K = openocd_h and J = loader and bank = unprobed_bank
        and e = "\<lparr>world = [0, 0x0ACD0000, 0x100000, 0x10000, 16, 0x10000000], trace = []\<rparr>"
        and fuel = 1 and K' = openocd_h and J' = loader
        and buf = "[1, 2]" and offs = 0 and cnt = 2 and e' = "\<lparr>world = [], trace = []\<rparr>"
        and first = 0 and last' = 0]
    unfolding p0 p1 p2 probe_receive_loader r0
    by (simp add: unprobed_bank_def ocl_flash_bank_command_def)
  have p3: "fst (ocl_probe openocd_h loader unprobed_bank
     \<lparr>world = [0, 0x0ACD0000, 0x100000], trace = []\<rparr>) = C_INT 1"
    by code_simp
  have p4: "fst (ocl_probe openocd_h loader unprobed_bank
     \<lparr>world = [0, 0x0ACD0000, 0x100000, 0x10000, 3, 0x00040004], trace = []\<rparr>) =
     ERROR_FLASH_BANK_INVALID"
    unfolding ocl_probe_split probe_receive_loader
    by (simp add: ocl_probe_validate_retval)
  have n3: "fst (ocl_probe openocd_h loader unprobed_bank
     \<lparr>world = [0, 0x0ACD0000, 0x100000], trace = []\<rparr>) \<noteq> ERROR_OK"
    unfolding p3 by simp
  have o3: "embeddedice_send loader [OCL_PROBE openocd_h]
        (snd (snd (embeddedice_receive loader
           \<lparr>world = [0, 0x0ACD0000, 0x100000], trace = []\<rparr>))) =
        (ERROR_OK, \<lparr>world = [0x0ACD0000, 0x100000], trace = [Receive, Send [0x0CBE0000]]\<rparr>) \<and>
      embeddedice_handshake loader (EICE_COMM_CTRL_WBIT openocd_h) 1000
        \<lparr>world = [0x0ACD0000, 0x100000], trace = [Receive, Send [0x0CBE0000]]\<rparr> =
        (ERROR_OK, \<lparr>world = [0x0ACD0000, 0x100000],
                    trace = [Receive, Send [0x0CBE0000], Handshake 1 1000]\<rparr>) \<and>
      embeddedice_receive loader
        \<lparr>world = [0x0ACD0000, 0x100000],
         trace = [Receive, Send [0x0CBE0000], Handshake 1 1000]\<rparr> =
        (ERROR_OK, OCL_CMD_DONE openocd_h, \<lparr>world = [0x100000], trace = [Receive, Send [0x0CBE0000], Handshake 1 1000, Receive]\<rparr>) \<and>
      probe_word openocd_h loader \<lparr>world = [0x100000], trace = [Receive, Send [0x0CBE0000], Handshake 1 1000, Receive]\<rparr> =
        (Some 0x100000, \<lparr>world = [], trace = [Receive, Send [0x0CBE0000], Handshake 1 1000, Receive, Handshake 1 0, Receive]\<rparr>)"
    by (simp add: probe_word_def embeddedice_send_def embeddedice_handshake_def
        embeddedice_receive_def loader_def openocd_h_def)
  have w3: "probe_word openocd_h loader \<lparr>world = [], trace = [Receive, Send [0x0CBE0000], Handshake 1 1000, Receive, Handshake 1 0, Receive]\<rparr> =
        (None, \<lparr>world = [], trace = [Receive, Send [0x0CBE0000], Handshake 1 1000, Receive, Handshake 1 0, Receive, Handshake 1 0, Receive]\<rparr>)"
    by (simp add: probe_word_def embeddedice_handshake_def embeddedice_receive_def
        loader_def openocd_h_def)
  have k3: "fst (snd (ocl_probe openocd_h loader unprobed_bank
     \<lparr>world = [0, 0x0ACD0000, 0x100000], trace = []\<rparr>)) =
     unprobed_bank\<lparr>bank_base := 0x100000\<rparr>"
    using
      ocl_probe_failure [where K = openocd_h and J = loader and bank = unprobed_bank
        and e = "\<lparr>world = [0, 0x0ACD0000, 0x100000], trace = []\<rparr>"
        and es = "\<lparr>world = [0x0ACD0000, 0x100000], trace = [Receive, Send [0x0CBE0000]]\<rparr>"
        and eh = "\<lparr>world = [0x0ACD0000, 0x100000],
                  trace = [Receive, Send [0x0CBE0000], Handshake 1 1000]\<rparr>"
        and er = "\<lparr>world = [0x100000], trace = [Receive, Send [0x0CBE0000], Handshake 1 1000, Receive]\<rparr>"
        and b = "0x100000"
        and ea = "\<lparr>world = [], trace = [Receive, Send [0x0CBE0000], Handshake 1 1000, Receive, Handshake 1 0, Receive]\<rparr>"
        and eb = "\<lparr>world = [], trace = [Receive, Send [0x0CBE0000], Handshake 1 1000, Receive, Handshake 1 0, Receive, Handshake 1 0, Receive]\<rparr>",
        OF n3, THEN conjunct2, THEN conjunct2, THEN conjunct2, THEN mp, OF o3,
        THEN conjunct2, THEN conjunct1, THEN mp, OF w3] .
  have n4: "fst (ocl_probe openocd_h loader unprobed_bank
     \<lparr>world = [0, 0x0ACD0000, 0x100000, 0x10000, 3, 0x00040004], trace = []\<rparr>) \<noteq> ERROR_OK"
    unfolding p4 by simp
  have o4: "embeddedice_send loader [OCL_PROBE openocd_h]
        (snd (snd (embeddedice_receive loader
           \<lparr>world = [0, 0x0ACD0000, 0x100000, 0x10000, 3, 0x00040004], trace = []\<rparr>))) =
        (ERROR_OK, \<lparr>world = [0x0ACD0000, 0x100000, 0x10000, 3, 0x00040004],
                    trace = [Receive, Send [0x0CBE0000]]\<rparr>) \<and>
      embeddedice_handshake loader (EICE_COMM_CTRL_WBIT openocd_h) 1000
        \<lparr>world = [0x0ACD0000, 0x100000, 0x10000, 3, 0x00040004],
         trace = [Receive, Send [0x0CBE0000]]\<rparr> =
        (ERROR_OK, \<lparr>world = [0x0ACD0000, 0x100000, 0x10000, 3, 0x00040004],
                    trace = [Receive, Send [0x0CBE0000], Handshake 1 1000]\<rparr>) \<and>
      embeddedice_receive loader
        \<lparr>world = [0x0ACD0000, 0x100000, 0x10000, 3, 0x00040004],
         trace = [Receive, Send [0x0CBE0000], Handshake 1 1000]\<rparr> =
        (ERROR_OK, OCL_CMD_DONE openocd_h,
         \<lparr>world = [0x100000, 0x10000, 3, 0x00040004], trace = [Receive, Send [0x0CBE0000], Handshake 1 1000, Receive]\<rparr>) \<and>
      probe_word openocd_h loader \<lparr>world = [0x100000, 0x10000, 3, 0x00040004], trace = [Receive, Send [0x0CBE0000], Handshake 1 1000, Receive]\<rparr> =
        (Some 0x100000, \<lparr>world = [0x10000, 3, 0x00040004], trace = [Receive, Send [0x0CBE0000], Handshake 1 1000, Receive, Handshake 1 0, Receive]\<rparr>)"
    by (simp add: probe_word_def embeddedice_send_def embeddedice_handshake_def
        embeddedice_receive_def loader_def openocd_h_def)
  have w4: "probe_word openocd_h loader \<lparr>world = [0x10000, 3, 0x00040004], trace = [Receive, Send [0x0CBE0000], Handshake 1 1000, Receive, Handshake 1 0, Receive]\<rparr> =
        (Some 0x10000, \<lparr>world = [3, 0x00040004], trace = [Receive, Send [0x0CBE0000], Handshake 1 1000, Receive, Handshake 1 0, Receive, Handshake 1 0, Receive]\<rparr>)"
    "probe_word openocd_h loader \<lparr>world = [3, 0x00040004], trace = [Receive, Send [0x0CBE0000], Handshake 1 1000, Receive, Handshake 1 0, Receive, Handshake 1 0, Receive]\<rparr> =
        (Some 3, \<lparr>world = [0x00040004], trace = [Receive, Send [0x0CBE0000], Handshake 1 1000, Receive, Handshake 1 0, Receive, Handshake 1 0, Receive, Handshake 1 0, Receive]\<rparr>)"
    "probe_word openocd_h loader \<lparr>world = [0x00040004], trace = [Receive, Send [0x0CBE0000], Handshake 1 1000, Receive, Handshake 1 0, Receive, Handshake 1 0, Receive, Handshake 1 0, Receive]\<rparr> =
        (Some 0x00040004, \<lparr>world = [], trace = [Receive, Send [0x0CBE0000], Handshake 1 1000, Receive, Handshake 1 0, Receive, Handshake 1 0, Receive, Handshake 1 0, Receive, Handshake 1 0, Receive]\<rparr>)"
    by (simp_all add: probe_word_def embeddedice_handshake_def embeddedice_receive_def
        loader_def openocd_h_def)
  note t4 =
      ocl_probe_failure [where K = openocd_h and J = loader and bank = unprobed_bank
        and e = "\<lparr>world = [0, 0x0ACD0000, 0x100000, 0x10000, 3, 0x00040004], trace = []\<rparr>"
        and es = "\<lparr>world = [0x0ACD0000, 0x100000, 0x10000, 3, 0x00040004],
                  trace = [Receive, Send [0x0CBE0000]]\<rparr>"
        and eh = "\<lparr>world = [0x0ACD0000, 0x100000, 0x10000, 3, 0x00040004],
                  trace = [Receive, Send [0x0CBE0000], Handshake 1 1000]\<rparr>"
        and er = "\<lparr>world = [0x100000, 0x10000, 3, 0x00040004], trace = [Receive, Send [0x0CBE0000], Handshake 1 1000, Receive]\<rparr>"
        and b = "0x100000"
        and ea = "\<lparr>world = [0x10000, 3, 0x00040004], trace = [Receive, Send [0x0CBE0000], Handshake 1 1000, Receive, Handshake 1 0, Receive]\<rparr>"
        and s = "0x10000"
        and eb = "\<lparr>world = [3, 0x00040004], trace = [Receive, Send [0x0CBE0000], Handshake 1 1000, Receive, Handshake 1 0, Receive, Handshake 1 0, Receive]\<rparr>"
        and n = 3
        and ec = "\<lparr>world = [0x00040004], trace = [Receive, Send [0x0CBE0000], Handshake 1 1000, Receive, Handshake 1 0, Receive, Handshake 1 0, Receive, Handshake 1 0, Receive]\<rparr>"
        and w = "0x00040004"
        and ed = "\<lparr>world = [], trace = [Receive, Send [0x0CBE0000], Handshake 1 1000, Receive, Handshake 1 0, Receive, Handshake 1 0, Receive, Handshake 1 0, Receive, Handshake 1 0, Receive]\<rparr>",
        OF n4, THEN conjunct2, THEN conjunct2, THEN conjunct2, THEN mp, OF o4]
  have k4: "bank_base (fst (snd (ocl_probe openocd_h loader unprobed_bank
       \<lparr>world = [0, 0x0ACD0000, 0x100000, 0x10000, 3, 0x00040004], trace = []\<rparr>))) =
       0x100000 \<and>
     bank_size (fst (snd (ocl_probe openocd_h loader unprobed_bank
       \<lparr>world = [0, 0x0ACD0000, 0x100000, 0x10000, 3, 0x00040004], trace = []\<rparr>))) =
       0x10000 \<and>
     num_sectors (fst (snd (ocl_probe openocd_h loader unprobed_bank
       \<lparr>world = [0, 0x0ACD0000, 0x100000, 0x10000, 3, 0x00040004], trace = []\<rparr>))) = 3 \<and>
     buflen (driver_priv (fst (snd (ocl_probe openocd_h loader unprobed_bank
       \<lparr>world = [0, 0x0ACD0000, 0x100000, 0x10000, 3, 0x00040004], trace = []\<rparr>)))) = 4 \<and>
     bufalign (driver_priv (fst (snd (ocl_probe openocd_h loader unprobed_bank
       \<lparr>world = [0, 0x0ACD0000, 0x100000, 0x10000, 3, 0x00040004], trace = []\<rparr>)))) = 4"
    using t4 w4 by simp
  have priv: "driver_priv x = \<lparr>buflen = 4, bufalign = 4\<rparr>"
    if "buflen (driver_priv x) = 4" "bufalign (driver_priv x) = 4" for x :: flash_bank
    using that by (cases "driver_priv x") simp
  show ?thesis
    using p0 p1 p2 p3 p4 old k3 k4 priv by simp
qed

text \<open>
  A probe that is rejected for a size of 0x10000 in 3 sectors leaves the sector count 3 and
  the buffer length 4 in the bank: the next erase and the next write are carried out.
\<close>

theorem ocl_probe_failed_counterexample:
  "fst (ocl_probe openocd_h loader unprobed_bank
     \<lparr>world = [0, 0x0ACD0000, 0x100000, 0x10000, 3, 0x00040004], trace = []\<rparr>)
     = ERROR_FLASH_BANK_INVALID \<and>
   fst (ocl_erase openocd_h loader
     (fst (snd (ocl_probe openocd_h loader unprobed_bank
        \<lparr>world = [0, 0x0ACD0000, 0x100000, 0x10000, 3, 0x00040004], trace = []\<rparr>)))
     0 2 \<lparr>world = [0x0ACD0000], trace = []\<rparr>) = ERROR_OK \<and>
   ocl_write 2 openocd_h loader
     (fst (snd (ocl_probe openocd_h loader unprobed_bank
        \<lparr>world = [0, 0x0ACD0000, 0x100000, 0x10000, 3, 0x00040004], trace = []\<rparr>)))
     [1, 2, 3, 4] 0 4 \<lparr>world = [0x0ACD0000], trace = []\<rparr> =
     Some (Inr (ERROR_OK,
       \<lparr>world = [], trace = [Send [0x0CFB0004, 0, 0x04030201, 0xC503CF0D], Handshake 1 1000, Receive]\<rparr>))"
  by code_simp

subsection \<open>The packer: bytes of a word\<close>

lemma word_bytes_ones: "word_bytes 0xffffffff = [0xff, 0xff, 0xff, 0xff]"
  by (simp add: word_bytes_def)

lemma mask0: "(0xffffff00 :: u32) = NOT (mask 8)"
  by (simp add: mask_eq_exp_minus_1)

lemma mask1: "(0xffff00ff :: u32) = NOT (push_bit 8 (mask 8))"
  by (simp add: mask_eq_exp_minus_1)

lemma mask2: "(0xff00ffff :: u32) = NOT (push_bit 16 (mask 8))"
  by (simp add: mask_eq_exp_minus_1)

lemma mask3: "(0x00ffffff :: u32) = NOT (push_bit 24 (mask 8))"
  by (simp add: mask_eq_exp_minus_1)

lemma and_byte0:
  "word_bytes (w AND (ucast (b :: u8) OR 0xffffff00)) = (word_bytes w)[0 := (word_bytes w ! 0) AND b]"
  unfolding mask0 word_bytes_def
  apply simp
  apply (intro conjI bit_word_eqI)
     apply (auto simp: bit_simps)
  done

lemma and_byte1:
  "word_bytes (w AND (push_bit 8 (ucast (b :: u8)) OR 0xffff00ff)) =
     (word_bytes w)[1 := (word_bytes w ! 1) AND b]"
  unfolding mask1 word_bytes_def
  apply simp
  apply (intro conjI bit_word_eqI)
     apply (auto simp: bit_simps)
  done

lemma and_byte2:
  "word_bytes (w AND (push_bit 16 (ucast (b :: u8)) OR 0xff00ffff)) =
     (word_bytes w)[2 := (word_bytes w ! 2) AND b]"
  unfolding mask2 word_bytes_def
  apply simp
  apply (intro conjI bit_word_eqI)
     apply (auto simp: bit_simps)
  done

lemma and_byte3:
  "word_bytes (w AND (push_bit 24 (ucast (b :: u8)) OR 0x00ffffff)) =
     (word_bytes w)[3 := (word_bytes w ! 3) AND b]"
  unfolding mask3 word_bytes_def
  apply simp
  apply (intro conjI bit_word_eqI)
     apply (auto simp: bit_simps)
  done

lemma length_word_bytes: "length (word_bytes w) = 4"
  by (simp add: word_bytes_def)

subsection \<open>The packer: one byte\<close>

lemma seq_simps [simp]: "seq (Inr a) f = f a" "seq (Inl x) f = Inl x"
  by (simp_all add: seq_def)

lemma filler_nth:
  assumes "drop j xs = replicate (4 - j) f" and "j < 4"
  shows "xs ! j = f"
proof -
  have "drop j xs \<noteq> []" using assms by (cases "4 - j") auto
  then have "j < length xs" by simp
  then have "xs ! j = hd (drop j xs)" by (simp add: hd_drop_conv_nth)
  then show ?thesis using assms by (cases "4 - j") auto
qed

lemma filler_drop_Suc:
  assumes "drop j xs = replicate (4 - j) f"
  shows "drop (Suc j) (xs[j := b]) = replicate (3 - j) f"
proof -
  have "drop (Suc j) (xs[j := b]) = drop (Suc j) xs"
    by (rule drop_update_cancel) simp
  also have "\<dots> = tl (drop j xs)"
    by (simp add: drop_Suc tl_drop)
  finally have "drop (Suc j) (xs[j := b]) = tl (drop j xs)" .
  then show ?thesis using assms by (cases "4 - j") auto
qed

lemma done_words_update:
  "dcc_bufptr s \<le> i \<Longrightarrow> 
   done_words (s\<lparr>dcc_buffer := (dcc_buffer s)[i := v]\<rparr>) = done_words s"
  by (cases "2 \<le> dcc_bufptr s") (simp_all add: done_words_def drop_update_swap)

lemma and_ff: "(0xff :: u8) AND b = b"
proof -
  have "(0xff :: u8) = - 1" by simp
  then show ?thesis by (simp only: and.left_neutral)
qed

lemma and_dcc_packing:
  fixes rest :: "u8 list"
  assumes p: "packing c bo bs s"
    and v: "word_bytes ((dcc_buffer s ! dcc_bufptr s) AND v) =
            (word_bytes (dcc_buffer s ! dcc_bufptr s))
              [byteofs s := (word_bytes (dcc_buffer s ! dcc_bufptr s) ! byteofs s) AND b]"
  defines "s1 \<equiv> placed s rest v"
  shows "and_dcc (s\<lparr>buffer := rest, byteofs := Suc (byteofs s)\<rparr>) v = Inr s1"
    and "done_words s1 = done_words s"
    and "concat (map word_bytes (done_words s1)) @
           take (Suc (byteofs s)) (word_bytes (dcc_buffer s1 ! dcc_bufptr s1)) =
         replicate bo 0xff @ bs @ [b]"
    and "drop (Suc (byteofs s)) (word_bytes (dcc_buffer s1 ! dcc_bufptr s1)) =
         replicate (3 - byteofs s) 0xff"
proof -
  define cur where "cur = dcc_buffer s ! dcc_bufptr s"
  have lt: "dcc_bufptr s < length (dcc_buffer s)" and j: "byteofs s < 4"
    and data: "concat (map word_bytes (done_words s)) @ take (byteofs s) (word_bytes cur) =
       replicate bo 0xff @ bs"
    and fill: "drop (byteofs s) (word_bytes cur) = replicate (4 - byteofs s) 0xff"
    using p by (simp_all add: packing_def cur_def)
  show "and_dcc (s\<lparr>buffer := rest, byteofs := Suc (byteofs s)\<rparr>) v = Inr s1"
    using lt by (simp add: and_dcc_def store_dcc_def store_at_def s1_def placed_def)
  show dw: "done_words s1 = done_words s"
    using done_words_update [of s "dcc_bufptr s"] by (simp add: s1_def placed_def done_words_def)
  have "word_bytes cur ! byteofs s = 0xff"
    using fill j by (rule filler_nth)
  then have cur1: "word_bytes (dcc_buffer s1 ! dcc_bufptr s1) = (word_bytes cur)[byteofs s := b]"
    using lt v by (simp add: s1_def placed_def cur_def and_ff)
  have "take (Suc (byteofs s)) ((word_bytes cur)[byteofs s := b]) =
        take (byteofs s) (word_bytes cur) @ [b]"
    using j by (simp add: take_Suc_conv_app_nth length_word_bytes)
  then show "concat (map word_bytes (done_words s1)) @
           take (Suc (byteofs s)) (word_bytes (dcc_buffer s1 ! dcc_bufptr s1)) =
         replicate bo 0xff @ bs @ [b]"
    using data by (simp add: dw cur1)
  show "drop (Suc (byteofs s)) (word_bytes (dcc_buffer s1 ! dcc_bufptr s1)) =
         replicate (3 - byteofs s) 0xff"
    unfolding cur1 using fill by (rule filler_drop_Suc)
qed

lemma done_words_snoc:
  assumes "2 \<le> dcc_bufptr s" and "dcc_bufptr s < length (dcc_buffer s)"
  shows "done_words (s\<lparr>dcc_bufptr := Suc (dcc_bufptr s)\<rparr>) =
         done_words s @ [dcc_buffer s ! dcc_bufptr s]"
proof -
  have "dcc_bufptr s - 2 < length (drop 2 (dcc_buffer s))" using assms by simp
  then have "take (Suc (dcc_bufptr s - 2)) (drop 2 (dcc_buffer s)) =
      take (dcc_bufptr s - 2) (drop 2 (dcc_buffer s)) @ [drop 2 (dcc_buffer s) ! (dcc_bufptr s - 2)]"
    by (rule take_Suc_conv_app_nth)
  moreover have "Suc (dcc_bufptr s) - 2 = Suc (dcc_bufptr s - 2)" using assms by simp
  moreover have "2 + (dcc_bufptr s - 2) = dcc_bufptr s" using assms by simp
  ultimately show ?thesis using assms by (simp add: done_words_def)
qed

lemma done_words_other [simp]:
  "done_words (s\<lparr>chksum := x\<rparr>) = done_words s"
  "done_words (s\<lparr>byteofs := j\<rparr>) = done_words s"
  "done_words (s\<lparr>buffer := r\<rparr>) = done_words s"
  by (simp_all add: done_words_def)

lemma done_words_cong:
  "dcc_bufptr s = dcc_bufptr t \<Longrightarrow> dcc_buffer s = dcc_buffer t \<Longrightarrow> done_words s = done_words t"
  by (simp add: done_words_def)

lemma pack_byte_step:
  assumes p: "packing c bo bs s" and buf: "buffer s = b # rest"
    and room: "byteofs s = 3 \<Longrightarrow> Suc (dcc_bufptr s) < length (dcc_buffer s)"
  shows "\<exists>s'. pack_byte s = Inr s' \<and> packing c bo (bs @ [b]) s' \<and> buffer s' = rest \<and>
           length (dcc_buffer s') = length (dcc_buffer s) \<and>
           take 2 (dcc_buffer s') = take 2 (dcc_buffer s)"
proof -
  have ptr: "2 \<le> dcc_bufptr s" "dcc_bufptr s < length (dcc_buffer s)"
    and pos: "4 * (dcc_bufptr s - 2) + byteofs s = bo + length bs"
    and ck: "chksum s = foldl (XOR) c (done_words s)"
    and j4: "byteofs s < 4"
    using p by (simp_all add: packing_def)
  consider "byteofs s = 0" | "byteofs s = 1" | "byteofs s = 2" | "byteofs s = 3"
    using j4 by linarith
  then show ?thesis
  proof cases
    case 1
    define v :: u32 where "v = ucast b OR 0xffffff00"
    note a = and_dcc_packing [OF p, of v b rest, unfolded v_def 1, OF and_byte0]
    have "pack_byte s = Inr (placed s rest (ucast b OR 0xffffff00))"
      using a(1) by (simp add: pack_byte_def 1 buf)
    moreover have "packing c bo (bs @ [b]) (placed s rest (ucast b OR 0xffffff00))"
      using a(2-4) ptr pos ck 1 by (simp add: packing_def) (simp add: placed_def)
    ultimately show ?thesis using ptr by (simp add: placed_def)
  next
    case 2
    define v :: u32 where "v = push_bit 8 (ucast b) OR 0xffff00ff"
    note a = and_dcc_packing [OF p, of v b rest, unfolded v_def 2, OF and_byte1]
    have "pack_byte s = Inr (placed s rest (push_bit 8 (ucast b) OR 0xffff00ff))"
      using a(1) by (simp add: pack_byte_def 2 buf numeral_2_eq_2)
    moreover have "packing c bo (bs @ [b]) (placed s rest (push_bit 8 (ucast b) OR 0xffff00ff))"
      using a(2-4) ptr pos ck 2 by (simp add: packing_def) (simp add: placed_def)
    ultimately show ?thesis using ptr by (simp add: placed_def)
  next
    case 3
    define v :: u32 where "v = push_bit 16 (ucast b) OR 0xff00ffff"
    note a = and_dcc_packing [OF p, of v b rest, unfolded v_def 3, OF and_byte2]
    have "pack_byte s = Inr (placed s rest (push_bit 16 (ucast b) OR 0xff00ffff))"
      using a(1) by (simp add: pack_byte_def 3 buf)
    moreover have "packing c bo (bs @ [b]) (placed s rest (push_bit 16 (ucast b) OR 0xff00ffff))"
      using a(2-4) ptr pos ck 3 by (simp add: packing_def) (simp add: placed_def)
    ultimately show ?thesis using ptr by (simp add: placed_def)
  next
    case 4
    define v :: u32 where "v = push_bit 24 (ucast b) OR 0x00ffffff"
    define s1 where "s1 = placed s rest v"
    note a = and_dcc_packing [OF p, of v b rest, unfolded v_def 4, OF and_byte3,
        folded v_def s1_def]
    have s1: "dcc_bufptr s1 = dcc_bufptr s" "length (dcc_buffer s1) = length (dcc_buffer s)"
      "chksum s1 = chksum s" "buffer s1 = rest" "take 2 (dcc_buffer s1) = take 2 (dcc_buffer s)"
      using ptr by (simp_all add: s1_def placed_def)
    define s2 where "s2 = s1\<lparr>chksum := chksum s1 XOR (dcc_buffer s1 ! dcc_bufptr s1),
                  dcc_bufptr := Suc (dcc_bufptr s1)\<rparr>"
    define s3 where "s3 = s2\<lparr>dcc_buffer := (dcc_buffer s2)[dcc_bufptr s2 := 0xffffffff],
                  byteofs := 0\<rparr>"
    have rm: "Suc (dcc_bufptr s) < length (dcc_buffer s)" using room 4 by simp
    have run: "pack_byte s = Inr s3"
      using a(1) ptr rm s1
      by (simp add: pack_byte_def 4 buf v_def xor_next_def store_dcc_def store_at_def
          s2_def s3_def)
    have "done_words s2 = done_words (s1\<lparr>dcc_bufptr := Suc (dcc_bufptr s1)\<rparr>)"
      by (rule done_words_cong) (simp_all add: s2_def)
    then have dw2: "done_words s2 = done_words s @ [dcc_buffer s1 ! dcc_bufptr s1]"
      using done_words_snoc [of s1] ptr s1 a(2) by simp
    have dw3: "done_words s3 = done_words s2"
      using done_words_update [of s2 "dcc_bufptr s2"] by (simp add: s3_def done_words_def)
    have full: "take 4 (word_bytes (dcc_buffer s1 ! dcc_bufptr s1)) =
        word_bytes (dcc_buffer s1 ! dcc_bufptr s1)"
      by (simp add: length_word_bytes)
    have data: "concat (map word_bytes (done_words s3)) = replicate bo 0xff @ bs @ [b]"
      using a(3) by (simp add: dw3 dw2 a(2) full)
    have cur: "dcc_buffer s3 ! dcc_bufptr s3 = 0xffffffff"
      using rm s1 by (simp add: s3_def s2_def)
    have "packing c bo (bs @ [b]) s3"
      unfolding packing_def
    proof (intro conjI)
      show "2 \<le> dcc_bufptr s3" using ptr s1 by (simp add: s3_def s2_def)
      show "dcc_bufptr s3 < length (dcc_buffer s3)" using rm s1 by (simp add: s3_def s2_def)
      show "byteofs s3 < 4" by (simp add: s3_def)
      show "4 * (dcc_bufptr s3 - 2) + byteofs s3 = bo + length (bs @ [b])"
        using pos ptr s1 4 by (simp add: s3_def s2_def)
      show "concat (map word_bytes (done_words s3)) @
          take (byteofs s3) (word_bytes (dcc_buffer s3 ! dcc_bufptr s3)) =
          replicate bo 0xff @ bs @ [b]"
        using data by (simp add: s3_def)
      show "drop (byteofs s3) (word_bytes (dcc_buffer s3 ! dcc_bufptr s3)) =
          replicate (4 - byteofs s3) 0xff"
        unfolding cur by (simp add: s3_def word_bytes_ones eval_nat_numeral)
      show "chksum s3 = foldl (XOR) c (done_words s3)"
        using ck s1 by (simp add: dw3 dw2) (simp add: s3_def s2_def)
    qed
    moreover have "buffer s3 = rest" "length (dcc_buffer s3) = length (dcc_buffer s)"
      "take 2 (dcc_buffer s3) = take 2 (dcc_buffer s)"
      using s1 ptr by (simp_all add: s3_def s2_def)
    ultimately show ?thesis using run by simp
  qed
qed

subsection \<open>The packer: the loop and the block\<close>

lemma pack_byte_payload:
  "byteofs s < 4 \<Longrightarrow> buffer s = [] \<Longrightarrow> pack_byte s = Inl PAYLOAD_OVERRUN"
  by (auto simp: pack_byte_def)

lemma pack_loop_packing:
  assumes "packing c bo bs s"
    and "2 + (bo + length bs + n) div 4 < length (dcc_buffer s)"
  shows "(length (buffer s) < n \<longrightarrow> pack_loop n s = Inl PAYLOAD_OVERRUN) \<and>
    (n \<le> length (buffer s) \<longrightarrow>
      (\<exists>s'. pack_loop n s = Inr s' \<and> packing c bo (bs @ take n (buffer s)) s' \<and>
         buffer s' = drop n (buffer s) \<and> length (dcc_buffer s') = length (dcc_buffer s) \<and>
         take 2 (dcc_buffer s') = take 2 (dcc_buffer s)))"
  using assms
proof (induction n arbitrary: s bs)
  case 0
  then show ?case by simp
next
  case (Suc n)
  have j4: "byteofs s < 4"
    and pos: "4 * (dcc_bufptr s - 2) + byteofs s = bo + length bs"
    and ptr: "2 \<le> dcc_bufptr s"
    using Suc.prems(1) by (simp_all add: packing_def)
  show ?case
  proof (cases "buffer s")
    case Nil
    then show ?thesis using j4 by (simp add: pack_byte_payload)
  next
    case (Cons b rest)
    have room: "Suc (dcc_bufptr s) < length (dcc_buffer s)" if "byteofs s = 3"
    proof -
      have "bo + length bs + Suc n = 4 * (dcc_bufptr s - 1) + n"
        using pos ptr that by simp
      then have "dcc_bufptr s - 1 \<le> (bo + length bs + Suc n) div 4"
        by simp
      then show ?thesis using Suc.prems(2) ptr by simp
    qed
    obtain s' where s': "pack_byte s = Inr s'" "packing c bo (bs @ [b]) s'" "buffer s' = rest"
      "length (dcc_buffer s') = length (dcc_buffer s)"
      "take 2 (dcc_buffer s') = take 2 (dcc_buffer s)"
      using pack_byte_step [OF Suc.prems(1) Cons room] by blast
    have "2 + (bo + length (bs @ [b]) + n) div 4 < length (dcc_buffer s')"
      using Suc.prems(2) s'(4) by simp
    from Suc.IH [OF s'(2) this] show ?thesis
      using s' Cons by simp
  qed
qed

lemma packing_init:
  assumes "bo < 4" and "2 < length dcc"
  shows "packing c bo []
    \<lparr>dcc_buffer = dcc[2 := 0xffffffff], dcc_bufptr = 2, buffer = buf, byteofs = bo, chksum = c\<rparr>"
proof -
  have "take bo [0xff, 0xff, 0xff, 0xff :: u8] = replicate bo 0xff"
    "drop bo [0xff, 0xff, 0xff, 0xff :: u8] = replicate (4 - bo) 0xff"
    using assms(1) by (auto simp: less_Suc_eq numeral_eq_Suc)
  then show ?thesis
    using assms by (simp add: packing_def done_words_def word_bytes_ones)
qed

lemma take_drop2_snoc:
  assumes "2 \<le> p" and "p < length xs"
  shows "take (p - 1) (drop 2 xs) = take (p - 2) (drop 2 xs) @ [xs ! p]"
proof -
  obtain q where q: "p = q + 2" using assms(1) by (metis add.commute le_Suc_ex)
  have "take (Suc q) (drop 2 xs) = take q (drop 2 xs) @ [drop 2 xs ! q]"
    using assms(2) q by (intro take_Suc_conv_app_nth) simp
  then show ?thesis using assms(2) q by (simp add: add.commute)
qed

lemma packing_finish:
  assumes p: "packing c bo bs s" and room: "3 + (bo + length bs + 3) div 4 \<le> length (dcc_buffer s)"
  shows "\<exists>s'. seq (if byteofs s \<noteq> 0 then xor_next s else Inr s)
            (\<lambda>s2. seq (store_dcc s2 (chksum s2))
            (\<lambda>s3. Inr (s3\<lparr>dcc_bufptr := dcc_bufptr s3 + 1\<rparr>))) = Inr s' \<and>
          packed c (dcc_buffer s) bo bs s' \<and> buffer s' = buffer s"
proof -
  have ptr: "2 \<le> dcc_bufptr s" "dcc_bufptr s < length (dcc_buffer s)"
    and pos: "4 * (dcc_bufptr s - 2) + byteofs s = bo + length bs"
    and ck: "chksum s = foldl (XOR) c (done_words s)"
    and j4: "byteofs s < 4"
    and data: "concat (map word_bytes (done_words s)) @
       take (byteofs s) (word_bytes (dcc_buffer s ! dcc_bufptr s)) = replicate bo 0xff @ bs"
    and fill: "drop (byteofs s) (word_bytes (dcc_buffer s ! dcc_bufptr s)) =
       replicate (4 - byteofs s) 0xff"
    using p by (simp_all add: packing_def)
  show ?thesis
  proof (cases "byteofs s = 0")
    case True
    have W: "(bo + length bs + 3) div 4 = dcc_bufptr s - 2"
    proof -
      have "bo + length bs + 3 = 4 * (dcc_bufptr s - 2) + 3"
        using pos True by simp
      then show ?thesis by simp
    qed
    define s' where "s' = s\<lparr>dcc_buffer := (dcc_buffer s)[dcc_bufptr s := chksum s],
        dcc_bufptr := dcc_bufptr s + 1\<rparr>"
    have run: "seq (if byteofs s \<noteq> 0 then xor_next s else Inr s)
            (\<lambda>s2. seq (store_dcc s2 (chksum s2))
            (\<lambda>s3. Inr (s3\<lparr>dcc_bufptr := dcc_bufptr s3 + 1\<rparr>))) = Inr s'"
      using True ptr by (simp add: store_dcc_def store_at_def s'_def)
    have tk: "take (dcc_bufptr s - 2) (drop 2 (dcc_buffer s')) = done_words s"
      using ptr by (simp add: s'_def done_words_def drop_update_swap)
    have e2: "2 + (dcc_bufptr s - 2) = dcc_bufptr s" "3 + (dcc_bufptr s - 2) = dcc_bufptr s + 1"
      using ptr by simp_all
    have "packed c (dcc_buffer s) bo bs s'"
      unfolding packed_def W tk e2
      using ptr pos True data ck by (simp add: s'_def)
    then show ?thesis using run by (auto simp: s'_def)
  next
    case False
    have W: "(bo + length bs + 3) div 4 = dcc_bufptr s - 1"
    proof -
      have "bo + length bs + 3 = 4 * (dcc_bufptr s - 1) + (byteofs s - 1)"
        using pos ptr False by simp
      moreover have "byteofs s - 1 < 4" using j4 by simp
      ultimately show ?thesis by simp
    qed
    have rm: "Suc (dcc_bufptr s) < length (dcc_buffer s)"
      using room ptr unfolding W by simp
    define cur where "cur = dcc_buffer s ! dcc_bufptr s"
    define s' where "s' = s\<lparr>chksum := chksum s XOR cur,
        dcc_buffer := (dcc_buffer s)[Suc (dcc_bufptr s) := chksum s XOR cur],
        dcc_bufptr := dcc_bufptr s + 2\<rparr>"
    have run: "seq (if byteofs s \<noteq> 0 then xor_next s else Inr s)
            (\<lambda>s2. seq (store_dcc s2 (chksum s2))
            (\<lambda>s3. Inr (s3\<lparr>dcc_bufptr := dcc_bufptr s3 + 1\<rparr>))) = Inr s'"
      using False ptr rm by (simp add: xor_next_def store_dcc_def store_at_def s'_def cur_def)
    have "take (dcc_bufptr s - 1) (drop 2 (dcc_buffer s)) = done_words s @ [cur]"
      using take_drop2_snoc [OF ptr] by (simp add: done_words_def cur_def)
    then have tk: "take (dcc_bufptr s - 1) (drop 2 (dcc_buffer s')) = done_words s @ [cur]"
      using ptr by (simp add: s'_def drop_update_swap)
    have "concat (map word_bytes (done_words s @ [cur])) =
        (concat (map word_bytes (done_words s)) @ take (byteofs s) (word_bytes cur)) @
        drop (byteofs s) (word_bytes cur)"
      by simp
    also have "\<dots> = replicate bo 0xff @ bs @ replicate (4 - byteofs s) 0xff"
      using data fill unfolding cur_def by simp
    finally have bytes: "concat (map word_bytes (done_words s @ [cur])) =
        replicate bo 0xff @ bs @ replicate (4 - byteofs s) 0xff" .
    have len: "4 * (dcc_bufptr s - 1) - bo - length bs = 4 - byteofs s"
      using pos ptr j4 by simp
    have e2: "2 + (dcc_bufptr s - 1) = Suc (dcc_bufptr s)" "3 + (dcc_bufptr s - 1) = dcc_bufptr s + 2"
      using ptr by simp_all
    have "packed c (dcc_buffer s) bo bs s'"
      unfolding packed_def W tk bytes len e2
      using ptr rm ck by (simp add: s'_def)
    then show ?thesis using run by (auto simp: s'_def)
  qed
qed

lemma pack_payload_packed:
  assumes bo: "bo < 4" and room: "3 + (bo + n + 3) div 4 \<le> length dcc"
  shows "(length buf < n \<longrightarrow> pack_payload c dcc buf bo n = Inl PAYLOAD_OVERRUN) \<and>
    (n \<le> length buf \<longrightarrow>
      (\<exists>s. pack_payload c dcc buf bo n = Inr s \<and> packed c dcc bo (take n buf) s \<and>
           buffer s = drop n buf))"
proof -
  define s0 where "s0 =
    \<lparr>dcc_buffer = dcc[2 := 0xffffffff], dcc_bufptr = 2, buffer = buf, byteofs = bo, chksum = c\<rparr>"
  have len: "2 < length dcc" using room by simp
  have st: "store_dcc \<lparr>dcc_buffer = dcc, dcc_bufptr = 2, buffer = buf, byteofs = bo, chksum = c\<rparr>
      0xffffffff = Inr s0"
    using len by (simp add: store_dcc_def store_at_def s0_def)
  have p0: "packing c bo [] s0"
    unfolding s0_def using bo len by (rule packing_init)
  have "(bo + n) div 4 \<le> (bo + n + 3) div 4"
    by (rule div_le_mono) simp
  then have r0: "2 + (bo + length ([] :: u8 list) + n) div 4 < length (dcc_buffer s0)"
    using room by (simp add: s0_def)
  note loop = pack_loop_packing [OF p0 r0]
  show ?thesis
  proof (intro conjI impI)
    assume "length buf < n"
    then have "pack_loop n s0 = Inl PAYLOAD_OVERRUN"
      using loop by (simp add: s0_def)
    then show "pack_payload c dcc buf bo n = Inl PAYLOAD_OVERRUN"
      by (simp add: pack_payload_def st)
  next
    assume n: "n \<le> length buf"
    then obtain s1 where s1: "pack_loop n s0 = Inr s1" "packing c bo (take n buf) s1"
      "buffer s1 = drop n buf" "length (dcc_buffer s1) = length dcc"
      "take 2 (dcc_buffer s1) = take 2 dcc"
      using loop by (auto simp: s0_def)
    have "3 + (bo + length (take n buf) + 3) div 4 \<le> length (dcc_buffer s1)"
      using room n s1(4) by simp
    from packing_finish [OF s1(2) this]
    obtain s' where s': "seq (if byteofs s1 \<noteq> 0 then xor_next s1 else Inr s1)
            (\<lambda>s2. seq (store_dcc s2 (chksum s2))
            (\<lambda>s3. Inr (s3\<lparr>dcc_bufptr := dcc_bufptr s3 + 1\<rparr>))) = Inr s'"
      "packed c (dcc_buffer s1) bo (take n buf) s'" "buffer s' = buffer s1"
      by blast
    have "pack_payload c dcc buf bo n = Inr s'"
      using s'(1) by (simp add: pack_payload_def st s1(1))
    moreover have "packed c dcc bo (take n buf) s'"
      using s'(2) s1(4,5) by (simp add: packed_def)
    ultimately show "\<exists>s. pack_payload c dcc buf bo n = Inr s \<and> packed c dcc bo (take n buf) s \<and>
           buffer s = drop n buf"
      using s'(3) s1(3) by simp
  qed
qed

lemma packed_block:
  assumes p: "packed c dcc bo bs s" and room: "3 + (bo + length bs + 3) div 4 \<le> length dcc"
  shows "\<exists>ws. dcc_block s = take 2 dcc @ ws @ [foldl (XOR) c ws] \<and>
           length ws = (bo + length bs + 3) div 4 \<and>
           concat (map word_bytes ws) =
             replicate bo 0xff @ bs @ replicate (4 * length ws - bo - length bs) 0xff"
proof -
  define W where "W = (bo + length bs + 3) div 4"
  define ws where "ws = take W (drop 2 (dcc_buffer s))"
  have ptr: "dcc_bufptr s = 3 + W" and len: "length (dcc_buffer s) = length dcc"
    and hd: "take 2 (dcc_buffer s) = take 2 dcc"
    and bytes: "concat (map word_bytes ws) = replicate bo 0xff @ bs @ replicate (4 * W - bo - length bs) 0xff"
    and ck: "dcc_buffer s ! (2 + W) = foldl (XOR) c ws"
    using p by (simp_all add: packed_def W_def ws_def)
  have W3: "3 + W \<le> length (dcc_buffer s)" using room len by (simp add: W_def)
  then have lw: "length ws = W" by (simp add: ws_def)
  have "take (3 + W) (dcc_buffer s) =
        take 2 (dcc_buffer s) @ take (Suc W) (drop 2 (dcc_buffer s))"
    using take_add [of 2 "Suc W" "dcc_buffer s"] by (simp add: numeral_3_eq_3)
  also have "take (Suc W) (drop 2 (dcc_buffer s)) = ws @ [drop 2 (dcc_buffer s) ! W]"
    unfolding ws_def using W3 by (intro take_Suc_conv_app_nth) simp
  also have "drop 2 (dcc_buffer s) ! W = foldl (XOR) c ws"
    using W3 ck by simp
  finally have "dcc_block s = take 2 dcc @ ws @ [foldl (XOR) c ws]"
    by (simp add: dcc_block_def ptr hd)
  then show ?thesis using lw bytes by (auto simp: W_def)
qed

text \<open>
  C1. For every byte buffer \<open>B\<close> and starting offset \<open>off\<close>, in a staging buffer with
  room for the block, the packer returns; it produces as many words as \<open>off mod 4\<close> bytes
  of filler and the bytes of \<open>B\<close> need; unpacking these words (the bytes of the words, lowest
  first, from position \<open>off mod 4\<close> on, \<open>length B\<close> of them) gives \<open>B\<close> back; and every
  byte position before and after the data, up to the end of the last word, holds 0xFF.
\<close>

theorem pack_payload_unpack:
  assumes "3 + (off mod 4 + length B + 3) div 4 \<le> length dcc"
  shows "\<exists>s. pack_payload c dcc B (off mod 4) (length B) = Inr s \<and>
           length (payload_words (dcc_block s)) = (off mod 4 + length B + 3) div 4 \<and>
           unpack (off mod 4) (length B) (payload_words (dcc_block s)) = B \<and>
           take (off mod 4) (concat (map word_bytes (payload_words (dcc_block s)))) =
             replicate (off mod 4) 0xff \<and>
           drop (off mod 4 + length B) (concat (map word_bytes (payload_words (dcc_block s)))) =
             replicate (4 * length (payload_words (dcc_block s)) - (off mod 4 + length B)) 0xff"
proof -
  have bo: "off mod 4 < 4" by simp
  obtain s where s: "pack_payload c dcc B (off mod 4) (length B) = Inr s"
    "packed c dcc (off mod 4) B s"
    using pack_payload_packed [OF bo, of "length B" dcc B c] assms by auto
  obtain ws where ws: "dcc_block s = take 2 dcc @ ws @ [foldl (XOR) c ws]"
    "length ws = (off mod 4 + length B + 3) div 4"
    "concat (map word_bytes ws) =
       replicate (off mod 4) 0xff @ B @ replicate (4 * length ws - off mod 4 - length B) 0xff"
    using packed_block [OF s(2)] assms by auto
  have "2 \<le> length dcc" using assms by simp
  then have pw: "payload_words (dcc_block s) = ws"
    by (simp add: payload_words_def ws(1))
  show ?thesis
    using s(1) ws(2,3) by (auto simp: pw unpack_def)
qed

text \<open>Five bytes packed from position 2: two words, with two bytes of filler before and one after.\<close>

theorem pack_payload_unpack_witness:
  "3 + (2 mod 4 + length [0x11, 0x22, 0x33, 0x44, 0x55 :: u8] + 3) div 4 \<le>
     length (replicate 5 (0 :: u32)) \<and>
   pack_payload 0xC100CD0C (replicate 5 0) [0x11, 0x22, 0x33, 0x44, 0x55] (2 mod 4)
       (length [0x11, 0x22, 0x33, 0x44, 0x55 :: u8]) =
     Inr \<lparr>dcc_buffer = [0, 0, 0x2211FFFF, 0xFF554433, 0x1C4476C0], dcc_bufptr = 5,
          buffer = [], byteofs = 3, chksum = 0x1C4476C0\<rparr> \<and>
   unpack (2 mod 4) (length [0x11, 0x22, 0x33, 0x44, 0x55 :: u8])
     (payload_words (dcc_block
        \<lparr>dcc_buffer = [0, 0, 0x2211FFFF, 0xFF554433, 0x1C4476C0], dcc_bufptr = 5,
          buffer = [], byteofs = 3, chksum = 0x1C4476C0\<rparr>)) =
     [0x11, 0x22, 0x33, 0x44, 0x55] \<and>
   payload_words (dcc_block
        \<lparr>dcc_buffer = [0, 0, 0x2211FFFF, 0xFF554433, 0x1C4476C0], dcc_bufptr = 5,
          buffer = [], byteofs = 3, chksum = 0x1C4476C0\<rparr>) = [0x2211FFFF, 0xFF554433] \<and>
   concat (map word_bytes [0x2211FFFF, 0xFF554433]) =
     [0xFF, 0xFF, 0x11, 0x22, 0x33, 0x44, 0x55, 0xFF]"
proof -
  define S where "S = \<lparr>dcc_buffer = [0, 0, 0x2211FFFF, 0xFF554433, 0x1C4476C0 :: u32],
          dcc_bufptr = 5, buffer = ([] :: u8 list), byteofs = 3, chksum = 0x1C4476C0\<rparr>"
  have h: "3 + (2 mod 4 + length [0x11, 0x22, 0x33, 0x44, 0x55 :: u8] + 3) div 4 \<le>
     length (replicate 5 (0 :: u32))"
    by simp
  have run: "pack_payload 0xC100CD0C (replicate 5 0) [0x11, 0x22, 0x33, 0x44, 0x55] (2 mod 4)
       (length [0x11, 0x22, 0x33, 0x44, 0x55 :: u8]) = Inr S"
    unfolding S_def by code_simp
  obtain s where s: "pack_payload 0xC100CD0C (replicate 5 0) [0x11, 0x22, 0x33, 0x44, 0x55]
       (2 mod 4) (length [0x11, 0x22, 0x33, 0x44, 0x55 :: u8]) = Inr s"
    and u: "unpack (2 mod 4) (length [0x11, 0x22, 0x33, 0x44, 0x55 :: u8])
       (payload_words (dcc_block s)) = [0x11, 0x22, 0x33, 0x44, 0x55]"
    using pack_payload_unpack [OF h, of "0xC100CD0C"] by blast
  have "s = S" using s run by simp
  then have u': "unpack (2 mod 4) (length [0x11, 0x22, 0x33, 0x44, 0x55 :: u8])
       (payload_words (dcc_block S)) = [0x11, 0x22, 0x33, 0x44, 0x55]"
    using u by simp
  have pw: "payload_words (dcc_block S) = [0x2211FFFF, 0xFF554433]"
    unfolding S_def by code_simp
  have bytes: "concat (map word_bytes [0x2211FFFF, 0xFF554433]) =
     [0xFF, 0xFF, 0x11, 0x22, 0x33, 0x44, 0x55, 0xFF]"
    by code_simp
  show ?thesis
    using h run u' pw bytes unfolding S_def by blast
qed

text \<open>
  C3. For every chunk that \<^verbatim>\<open>ocl_write\<close> packs (in a staging buffer with room for it, from
  a payload that has the bytes), the block handed to the transport is the two header words,
  the packed words \<open>ws\<close> and one more word: the seed \<open>OCL_CHKS_INIT\<close> xor-ed with every
  word of \<open>ws\<close> in order. \<open>ws\<close> has a word for every started group of four byte positions,
  so that a last word that is only partly filled is in \<open>ws\<close> and in the checksum; the
  checksum word is not in \<open>ws\<close>.
\<close>

theorem pack_chunk_checksum:
  assumes "3 + (unat ((offs mod bufalign ocl) mod 4) + nat (sint runlen) + 3) div 4 \<le> length dcc"
    and "nat (sint runlen) \<le> length buf"
  shows "\<exists>s ws. pack_chunk K ocl dcc buf offs runlen = Inr s \<and>
           dcc_block s = [OCL_FLASH_BLOCK K OR runlen, offs] @ ws @
                         [foldl (XOR) (OCL_CHKS_INIT K) ws] \<and>
           ws = payload_words (dcc_block s) \<and>
           length ws = (unat ((offs mod bufalign ocl) mod 4) + nat (sint runlen) + 3) div 4"
proof -
  define bo where "bo = unat ((offs mod bufalign ocl) mod 4)"
  define n where "n = nat (sint runlen)"
  define dcc2 where "dcc2 = dcc[0 := OCL_FLASH_BLOCK K OR runlen, 1 := offs]"
  have len: "3 \<le> length dcc" using assms(1) by simp
  have bo: "bo < 4"
    unfolding bo_def by (simp add: unat_mod)
  have room: "3 + (bo + n + 3) div 4 \<le> length dcc2"
    using assms(1) by (simp add: bo_def n_def dcc2_def)
  have len01: "0 < length dcc" "1 < length dcc" using len by linarith+
  have run: "pack_chunk K ocl dcc buf offs runlen = pack_payload (OCL_CHKS_INIT K) dcc2 buf bo n"
    using len01 by (simp add: pack_chunk_def store_at_def bo_def n_def dcc2_def)
  obtain s where s: "pack_payload (OCL_CHKS_INIT K) dcc2 buf bo n = Inr s"
    "packed (OCL_CHKS_INIT K) dcc2 bo (take n buf) s"
    using pack_payload_packed [OF bo room, of buf "OCL_CHKS_INIT K"] assms(2)
    by (auto simp: n_def)
  have ln: "length (take n buf) = n" using assms(2) by (simp add: n_def)
  obtain ws where ws: "dcc_block s = take 2 dcc2 @ ws @ [foldl (XOR) (OCL_CHKS_INIT K) ws]"
    "length ws = (bo + n + 3) div 4"
    using packed_block [OF s(2)] room unfolding ln by auto
  have hd: "take 2 dcc2 = [OCL_FLASH_BLOCK K OR runlen, offs]"
    using len by (cases dcc; cases "tl dcc") (auto simp: dcc2_def)
  have "payload_words (dcc_block s) = ws"
    by (simp add: payload_words_def ws(1) hd)
  then show ?thesis
    using run s(1) ws hd by (auto simp: bo_def n_def)
qed

text \<open>A chunk of 5 bytes for offset 0x0FFE: two packed words, the second partly filled.\<close>

theorem pack_chunk_checksum_witness:
  "pack_chunk openocd_h \<lparr>buflen = 0x1000, bufalign = 0x1000\<rparr> (replicate 6 0)
     [0x11, 0x22, 0x33, 0x44, 0x55] 0x0FFE 5 =
     Inr \<lparr>dcc_buffer = [0x0CFB0005, 0x0FFE, 0x2211FFFF, 0xFF554433, 0x1C4476C0, 0],
          dcc_bufptr = 5, buffer = [], byteofs = 3, chksum = 0x1C4476C0\<rparr> \<and>
   dcc_block \<lparr>dcc_buffer = [0x0CFB0005, 0x0FFE, 0x2211FFFF, 0xFF554433, 0x1C4476C0, 0],
          dcc_bufptr = 5, buffer = [], byteofs = 3, chksum = 0x1C4476C0\<rparr> =
     [OCL_FLASH_BLOCK openocd_h OR 5, 0x0FFE] @ [0x2211FFFF, 0xFF554433] @
     [foldl (XOR) (OCL_CHKS_INIT openocd_h) [0x2211FFFF, 0xFF554433]] \<and>
   foldl (XOR) (OCL_CHKS_INIT openocd_h) [0x2211FFFF, 0xFF554433] = 0x1C4476C0"
proof -
  define S where "S =
     \<lparr>dcc_buffer = [0x0CFB0005, 0x0FFE, 0x2211FFFF, 0xFF554433, 0x1C4476C0, 0 :: u32],
      dcc_bufptr = 5, buffer = ([] :: u8 list), byteofs = 3, chksum = 0x1C4476C0\<rparr>"
  have h1: "3 + (unat ((0x0FFE mod bufalign \<lparr>buflen = 0x1000, bufalign = 0x1000\<rparr>) mod 4)
       + nat (sint (5 :: u32)) + 3) div 4 \<le> length (replicate 6 (0 :: u32))"
    by simp
  have h2: "nat (sint (5 :: u32)) \<le> length [0x11, 0x22, 0x33, 0x44, 0x55 :: u8]"
    by simp
  have run: "pack_chunk openocd_h \<lparr>buflen = 0x1000, bufalign = 0x1000\<rparr> (replicate 6 0)
     [0x11, 0x22, 0x33, 0x44, 0x55] 0x0FFE 5 = Inr S"
    unfolding S_def by code_simp
  obtain s ws where s: "pack_chunk openocd_h \<lparr>buflen = 0x1000, bufalign = 0x1000\<rparr>
      (replicate 6 0) [0x11, 0x22, 0x33, 0x44, 0x55] 0x0FFE 5 = Inr s"
    and b: "dcc_block s = [OCL_FLASH_BLOCK openocd_h OR 5, 0x0FFE] @ ws @
                         [foldl (XOR) (OCL_CHKS_INIT openocd_h) ws]"
    and w: "ws = payload_words (dcc_block s)"
    using pack_chunk_checksum [OF h1 h2, of openocd_h] by blast
  have "s = S" using s run by simp
  moreover have "payload_words (dcc_block S) = [0x2211FFFF, 0xFF554433]"
    unfolding S_def by code_simp
  ultimately have b': "dcc_block S = [OCL_FLASH_BLOCK openocd_h OR 5, 0x0FFE] @
      [0x2211FFFF, 0xFF554433] @
      [foldl (XOR) (OCL_CHKS_INIT openocd_h) [0x2211FFFF, 0xFF554433]]"
    using b w by simp
  have ck: "foldl (XOR) (OCL_CHKS_INIT openocd_h) [0x2211FFFF, 0xFF554433] = 0x1C4476C0"
    by code_simp
  show ?thesis
    using run b' ck unfolding S_def by blast
qed

subsection \<open>The chunks: arithmetic\<close>

lemma unat_offs_mod:
  assumes "bufalign ocl \<noteq> 0" and "bufalign ocl \<le> buflen ocl"
  shows "unat (offs mod bufalign ocl) < unat (buflen ocl)"
proof -
  have "0 < unat (bufalign ocl)" using assms(1) by (simp add: unat_gt_0)
  then have "unat offs mod unat (bufalign ocl) < unat (bufalign ocl)" by simp
  moreover have "unat (bufalign ocl) \<le> unat (buflen ocl)"
    using assms(2) by (simp add: word_le_nat_alt)
  ultimately show ?thesis by (simp add: unat_mod)
qed

lemma next_runlen_bounds:
  assumes "bufalign ocl \<noteq> 0" and "bufalign ocl \<le> buflen ocl" and "cnt \<noteq> 0"
  shows "0 < unat (next_runlen ocl offs cnt) \<and> unat (next_runlen ocl offs cnt) \<le> unat cnt"
proof -
  define r where "r = offs mod bufalign ocl"
  have r: "unat r < unat (buflen ocl)"
    unfolding r_def using assms(1,2) by (rule unat_offs_mod)
  have c: "0 < unat cnt" using assms(3) by (simp add: unat_gt_0)
  show ?thesis
  proof (cases "cnt + r > buflen ocl")
    case True
    then have rl: "next_runlen ocl offs cnt = buflen ocl - r"
      by (simp add: next_runlen_def r_def)
    have u: "unat (buflen ocl - r) = unat (buflen ocl) - unat r"
      using r by (simp add: unat_sub word_le_nat_alt)
    have "unat (buflen ocl) < (unat cnt + unat r) mod 2 ^ 32"
      using True by (simp add: word_less_nat_alt unat_word_ariths)
    moreover have "(unat cnt + unat r) mod 2 ^ 32 \<le> unat cnt + unat r" by simp
    ultimately have "unat (buflen ocl) < unat cnt + unat r" by linarith
    then show ?thesis using r unfolding rl u by linarith
  next
    case False
    then have "next_runlen ocl offs cnt = cnt"
      by (simp add: next_runlen_def r_def)
    then show ?thesis using c by simp
  qed
qed

lemma next_runlen_min:
  assumes "bufalign ocl \<noteq> 0" and "bufalign ocl \<le> buflen ocl"
    and "unat cnt + unat (offs mod bufalign ocl) < 2 ^ 32"
  shows "unat (next_runlen ocl offs cnt) =
         min (unat cnt) (unat (buflen ocl) - unat (offs mod bufalign ocl))"
proof -
  define r where "r = offs mod bufalign ocl"
  have r: "unat r < unat (buflen ocl)"
    unfolding r_def using assms(1,2) by (rule unat_offs_mod)
  have s: "unat (cnt + r) = unat cnt + unat r"
    using assms(3) by (simp add: unat_word_ariths r_def)
  show ?thesis
  proof (cases "cnt + r > buflen ocl")
    case True
    then have rl: "next_runlen ocl offs cnt = buflen ocl - r"
      by (simp add: next_runlen_def r_def)
    have u: "unat (buflen ocl - r) = unat (buflen ocl) - unat r"
      using r by (simp add: unat_sub word_le_nat_alt)
    have "unat (buflen ocl) < unat cnt + unat r"
      using True s by (simp add: word_less_nat_alt)
    then show ?thesis unfolding rl u r_def [symmetric] by simp
  next
    case False
    then have rl: "next_runlen ocl offs cnt = cnt"
      by (simp add: next_runlen_def r_def)
    have "unat cnt + unat r \<le> unat (buflen ocl)"
      using False s by (simp add: word_less_nat_alt)
    then show ?thesis unfolding rl r_def [symmetric] by simp
  qed
qed

lemma nat_sint:
  "nat (sint (w :: u32)) = (if unat w < 2147483648 then unat w else 0)"
proof -
  have s: "sint w = signed_take_bit 31 (uint w)"
    using sint_uint [of w] by simp
  have u: "uint w = int (unat w)" by simp
  have u32: "uint w < 4294967296" using uint_lt2p [of w] by simp
  show ?thesis
  proof (cases "unat w < 2147483648")
    case True
    have lo: "- (2 ^ 31) \<le> uint w" by (rule order_trans [of _ 0]) simp_all
    from True have "int (unat w) < int 2147483648" by (rule iffD2 [OF of_nat_less_iff])
    then have hi: "uint w < 2 ^ 31" by simp
    note s
    also have "signed_take_bit 31 (uint w) = uint w"
      using lo hi by (rule signed_take_bit_int_eq_self)
    finally have "sint w = uint w" .
    then have "nat (sint w) = unat w" by simp
    then show ?thesis using True by simp
  next
    case False
    then have "2147483648 \<le> unat w" by simp
    then have "int 2147483648 \<le> int (unat w)" by (rule iffD2 [OF of_nat_le_iff])
    then have "2 ^ 31 \<le> uint w" by simp
    then have "signed_take_bit 31 (uint w) \<le> uint w - 2 ^ Suc 31"
      by (rule signed_take_bit_int_less_eq)
    then have "sint w \<le> uint w - 4294967296" unfolding s by simp
    then have "sint w < 0" using u32 by linarith
    then have "nat (sint w) = 0" by simp
    then show ?thesis using False by simp
  qed
qed

lemma runlen_fits:
  assumes "bufalign ocl \<noteq> 0" and "bufalign ocl \<le> buflen ocl" and "4 \<le> unat (buflen ocl)"
  shows "unat ((offs mod bufalign ocl) mod 4) + nat (sint (next_runlen ocl offs cnt))
          \<le> unat (buflen ocl)"
proof -
  define r where "r = offs mod bufalign ocl"
  define BL where "BL = unat (buflen ocl)"
  define bo where "bo = unat (r mod 4)"
  have r: "unat r < BL"
    unfolding r_def BL_def using assms(1,2) by (rule unat_offs_mod)
  have bo: "bo \<le> unat r" "bo < 4"
    by (simp_all add: bo_def unat_mod)
  have BL4: "4 \<le> BL" using assms(3) by (simp add: BL_def)
  show ?thesis
  proof (cases "cnt + r > buflen ocl")
    case True
    then have rl: "next_runlen ocl offs cnt = buflen ocl - r"
      by (simp add: next_runlen_def r_def)
    have u: "unat (buflen ocl - r) = BL - unat r"
      using r by (simp add: unat_sub word_le_nat_alt BL_def)
    have "nat (sint (buflen ocl - r)) \<le> BL - unat r"
      unfolding nat_sint u by simp
    then show ?thesis
      unfolding rl r_def [symmetric] BL_def [symmetric] bo_def [symmetric]
      using r bo by linarith
  next
    case False
    then have rl: "next_runlen ocl offs cnt = cnt"
      by (simp add: next_runlen_def r_def)
    have le: "(unat cnt + unat r) mod 4294967296 \<le> BL"
      using False by (simp add: word_less_nat_alt unat_word_ariths BL_def)
    have n: "nat (sint cnt) = (if unat cnt < 2147483648 then unat cnt else 0)"
      by (rule nat_sint)
    have "bo + nat (sint cnt) \<le> BL"
    proof (cases "unat cnt + unat r < 4294967296")
      case True
      then have "unat cnt + unat r \<le> BL" using le by simp
      then show ?thesis unfolding n using bo BL4 by (simp split: if_splits)
    next
      case False
      show ?thesis
      proof (cases "unat cnt < 2147483648")
        case True
        then have "unat cnt + 3 \<le> BL" using r False by linarith
        then show ?thesis
          unfolding n using bo True by simp
      next
        case False
        then show ?thesis
          unfolding n using bo BL4 by simp
      qed
    qed
    then show ?thesis
      unfolding rl r_def [symmetric] BL_def [symmetric] bo_def [symmetric] .
  qed
qed

subsection \<open>The staging buffer has room for every chunk\<close>

lemma pack_chunk_room:
  assumes "3 + (unat ((offs mod bufalign ocl) mod 4) + nat (sint runlen) + 3) div 4 \<le> length dcc"
  shows "pack_chunk K ocl dcc buf offs runlen \<noteq> Inl DCC_BUFFER_OVERRUN \<and>
         (\<forall>s. pack_chunk K ocl dcc buf offs runlen = Inr s \<longrightarrow>
            length (dcc_buffer s) = length dcc \<and>
            buffer s = drop (nat (sint runlen)) buf \<and>
            nat (sint runlen) \<le> length buf \<and>
            take 2 (dcc_block s) = [OCL_FLASH_BLOCK K OR runlen, offs])"
proof -
  define bo where "bo = unat ((offs mod bufalign ocl) mod 4)"
  define n where "n = nat (sint runlen)"
  define dcc2 where "dcc2 = dcc[0 := OCL_FLASH_BLOCK K OR runlen, 1 := offs]"
  have len: "3 \<le> length dcc" using assms(1) by simp
  have bo: "bo < 4"
    unfolding bo_def by (simp add: unat_mod)
  have room: "3 + (bo + n + 3) div 4 \<le> length dcc2"
    using assms(1) by (simp add: bo_def n_def dcc2_def)
  have len01: "0 < length dcc" "1 < length dcc" using len by linarith+
  have run: "pack_chunk K ocl dcc buf offs runlen = pack_payload (OCL_CHKS_INIT K) dcc2 buf bo n"
    using len01 by (simp add: pack_chunk_def store_at_def bo_def n_def dcc2_def)
  note p = pack_payload_packed [OF bo room, of buf "OCL_CHKS_INIT K"]
  show ?thesis
  proof (cases "n \<le> length buf")
    case True
    then obtain s where s: "pack_payload (OCL_CHKS_INIT K) dcc2 buf bo n = Inr s"
      "packed (OCL_CHKS_INIT K) dcc2 bo (take n buf) s" "buffer s = drop n buf"
      using p by blast
    have ln: "length (take n buf) = n" using True by simp
    obtain ws where "dcc_block s = take 2 dcc2 @ ws @ [foldl (XOR) (OCL_CHKS_INIT K) ws]"
      using packed_block [OF s(2)] room unfolding ln by auto
    moreover have "take 2 dcc2 = [OCL_FLASH_BLOCK K OR runlen, offs]"
      using len by (cases dcc; cases "tl dcc") (auto simp: dcc2_def)
    ultimately have "take 2 (dcc_block s) = [OCL_FLASH_BLOCK K OR runlen, offs]"
      by simp
    then show ?thesis
      using s True unfolding run n_def [symmetric] by (simp add: packed_def dcc2_def)
  next
    case False
    then have "pack_payload (OCL_CHKS_INIT K) dcc2 buf bo n = Inl PAYLOAD_OVERRUN"
      using p by simp
    then show ?thesis unfolding run by simp
  qed
qed

lemma staging_room:
  assumes "buflen ocl \<noteq> 0" and "buflen ocl mod 4 = 0"
    and "bufalign ocl \<noteq> 0" and "bufalign ocl \<le> buflen ocl"
    and "length dcc = unat (buflen ocl div 4 + 3)"
  shows "3 + (unat ((offs mod bufalign ocl) mod 4) +
              nat (sint (next_runlen ocl offs cnt)) + 3) div 4 \<le> length dcc"
proof -
  define BL where "BL = unat (buflen ocl)"
  have pos: "0 < BL" using assms(1) by (simp add: BL_def unat_gt_0)
  have "unat (buflen ocl mod 4) = 0" using assms(2) by simp
  then have m4: "BL mod 4 = 0" by (simp add: unat_mod BL_def)
  then have BL4: "4 \<le> BL" using pos by presburger
  have fit: "unat ((offs mod bufalign ocl) mod 4) + nat (sint (next_runlen ocl offs cnt)) \<le> BL"
    unfolding BL_def using assms(3,4) BL4 [unfolded BL_def] by (rule runlen_fits)
  have "BL < 4294967296" using unsigned_less [of "buflen ocl"] by (simp add: BL_def)
  then have "BL div 4 + 3 < 4294967296" by simp
  then have "unat (buflen ocl div 4 + 3) = BL div 4 + 3"
    by (simp add: unat_word_ariths unat_div BL_def)
  then have len: "length dcc = BL div 4 + 3" using assms(5) by simp
  have "(unat ((offs mod bufalign ocl) mod 4) + nat (sint (next_runlen ocl offs cnt)) + 3) div 4
        \<le> (BL + 3) div 4"
    using fit by (intro div_le_mono) simp
  also have "(BL + 3) div 4 = BL div 4" using m4 by presburger
  finally show ?thesis using len by simp
qed

subsection \<open>The chunking loop\<close>

lemma ocl_write_loop_round:
  assumes c: "cnt \<noteq> 0"
    and p: "pack_chunk K ocl dcc buf offs (next_runlen ocl offs cnt) = Inr s"
  shows "(\<exists>r e'. ocl_write_loop (Suc fuel) K J ocl dcc buf offs cnt e = Some (Inr (r, e')) \<and>
                  r \<noteq> ERROR_OK) \<or>
         (\<exists>d e'. ocl_write_loop (Suc fuel) K J ocl dcc buf offs cnt e =
                  ocl_write_loop fuel K J ocl ((dcc_buffer s)[0 := d]) (buffer s)
                    (offs + next_runlen ocl offs cnt) (cnt - next_runlen ocl offs cnt) e' \<and>
                  sent (trace e') = sent (trace e) @ [dcc_block s])"
proof -
  obtain r1 e1 where s1: "embeddedice_send J (dcc_block s) e = (r1, e1)" by fastforce
  obtain r2 e2 where s2: "embeddedice_handshake J (EICE_COMM_CTRL_WBIT K) 1000 e1 = (r2, e2)"
    by fastforce
  obtain r3 d e3 where s3: "embeddedice_receive J e2 = (r3, d, e3)"
    using prod_cases3 by blast
  have tr: "sent (trace e3) = sent (trace e) @ [dcc_block s]"
    by (simp add: trace_send [OF s1] trace_handshake [OF s2] trace_receive [OF s3] sent_append)
  have "ocl_write_loop (Suc fuel) K J ocl dcc buf offs cnt e =
      (if r1 \<noteq> ERROR_OK then Some (Inr (r1, e1))
       else if r2 \<noteq> ERROR_OK then Some (Inr (C_INT 1, e2))
       else if r3 \<noteq> ERROR_OK then Some (Inr (C_INT 1, e3))
       else if d \<noteq> OCL_CMD_DONE K then Some (Inr (ERROR_FLASH_OPERATION_FAILED, e3))
       else ocl_write_loop fuel K J ocl ((dcc_buffer s)[0 := d]) (buffer s)
              (offs + next_runlen ocl offs cnt) (cnt - next_runlen ocl offs cnt) e3)"
    using c by (simp add: p s1 s2 s3)
  then show ?thesis using tr by (auto split: if_splits)
qed

lemma ocl_write_loop_in_bounds:
  assumes "buflen ocl \<noteq> 0" and "buflen ocl mod 4 = 0"
    and "bufalign ocl \<noteq> 0" and "bufalign ocl \<le> buflen ocl"
    and "length dcc = unat (buflen ocl div 4 + 3)"
  shows "ocl_write_loop fuel K J ocl dcc buf offs cnt e \<noteq> Some (Inl DCC_BUFFER_OVERRUN)"
  using assms(5)
proof (induction fuel arbitrary: dcc buf offs cnt e)
  case 0
  then show ?case by simp
next
  case (Suc fuel)
  show ?case
  proof (cases "cnt = 0")
    case True
    then show ?thesis by simp
  next
    case False
    note room = pack_chunk_room [OF staging_room [OF assms(1-4) Suc.prems, of offs cnt],
        of K buf]
    show ?thesis
    proof (cases "pack_chunk K ocl dcc buf offs (next_runlen ocl offs cnt)")
      case (Inl f)
      then have "f \<noteq> DCC_BUFFER_OVERRUN" using room by auto
      then show ?thesis using False Inl by simp
    next
      case (Inr s)
      then have len: "length ((dcc_buffer s)[0 := d]) = unat (buflen ocl div 4 + 3)" for d
        using room Suc.prems by simp
      from ocl_write_loop_round [OF False Inr, of fuel J e] show ?thesis
      proof (elim disjE exE conjE)
        fix r e'
        assume "ocl_write_loop (Suc fuel) K J ocl dcc buf offs cnt e = Some (Inr (r, e'))"
        then show ?thesis by (simp del: ocl_write_loop.simps)
      next
        fix d e'
        assume eq: "ocl_write_loop (Suc fuel) K J ocl dcc buf offs cnt e =
                  ocl_write_loop fuel K J ocl ((dcc_buffer s)[0 := d]) (buffer s)
                    (offs + next_runlen ocl offs cnt) (cnt - next_runlen ocl offs cnt) e'"
        show ?thesis unfolding eq by (rule Suc.IH [OF len])
      qed
    qed
  qed
qed

lemma ocl_write_loop_terminates:
  assumes "bufalign ocl \<noteq> 0" and "bufalign ocl \<le> buflen ocl"
  shows "unat cnt < fuel \<Longrightarrow> \<exists>r. ocl_write_loop fuel K J ocl dcc buf offs cnt e = Some r"
proof (induction fuel arbitrary: dcc buf offs cnt e)
  case 0
  then show ?case by simp
next
  case (Suc fuel)
  show ?case
  proof (cases "cnt = 0")
    case True
    then show ?thesis by simp
  next
    case False
    define rl where "rl = next_runlen ocl offs cnt"
    have b: "0 < unat rl" "unat rl \<le> unat cnt"
      using next_runlen_bounds [OF assms False, of offs] by (simp_all add: rl_def)
    then have "unat (cnt - rl) = unat cnt - unat rl"
      by (simp add: unat_sub word_le_nat_alt)
    then have less: "unat (cnt - rl) < fuel"
      using b Suc.prems by simp
    show ?thesis
    proof (cases "pack_chunk K ocl dcc buf offs (next_runlen ocl offs cnt)")
      case (Inl f)
      then show ?thesis using False by simp
    next
      case (Inr s)
      from ocl_write_loop_round [OF False Inr, of fuel J e] show ?thesis
      proof (elim disjE exE conjE)
        fix r e'
        assume "ocl_write_loop (Suc fuel) K J ocl dcc buf offs cnt e = Some (Inr (r, e'))"
        then show ?thesis by (simp del: ocl_write_loop.simps)
      next
        fix d e'
        assume eq: "ocl_write_loop (Suc fuel) K J ocl dcc buf offs cnt e =
                  ocl_write_loop fuel K J ocl ((dcc_buffer s)[0 := d]) (buffer s)
                    (offs + next_runlen ocl offs cnt) (cnt - next_runlen ocl offs cnt) e'"
        show ?thesis unfolding eq rl_def [symmetric] by (rule Suc.IH [OF less])
      qed
    qed
  qed
qed

subsection \<open>The chunks\<close>

lemma chunk_bytes_split:
  assumes "l \<le> cnt"
  shows "chunk_bytes offs cnt = chunk_bytes offs l @ chunk_bytes (offs + l) (cnt - l)"
proof -
  have u: "unat (cnt - l) = unat cnt - unat l" and le: "unat l \<le> unat cnt"
    using assms by (simp_all add: unat_sub word_le_nat_alt)
  define d where "d = unat cnt - unat l"
  have c: "unat cnt = unat l + d" using le by (simp add: d_def)
  have "[0..<unat l + d] = [0..<unat l] @ [unat l..<unat l + d]"
    by (rule upt_add_eq_append) simp
  also have "[unat l..<unat l + d] = map (\<lambda>k. k + unat l) [0..<d]"
    by (simp add: map_add_upt add.commute)
  finally have "[0..<unat cnt] = [0..<unat l] @ map (\<lambda>k. k + unat l) [0..<d]"
    unfolding c .
  moreover have "offs + of_nat (k + unat l) = offs + l + of_nat k" for k
    by simp
  ultimately show ?thesis
    by (simp add: chunk_bytes_def u d_def o_def)
qed

lemma write_chunks_cover_aux:
  assumes "bufalign ocl \<noteq> 0" and "bufalign ocl \<le> buflen ocl"
  shows "unat cnt + unat (offs mod bufalign ocl) < 2 ^ 32 \<Longrightarrow> unat cnt < fuel \<Longrightarrow>
    \<exists>cs. write_chunks fuel ocl offs cnt = Some cs \<and> chunked ocl offs cnt cs \<and>
      concat (map (\<lambda>(s, l). chunk_bytes s l) cs) = chunk_bytes offs cnt \<and>
      list_all (\<lambda>(s, l). unat (s mod bufalign ocl) + unat l \<le> unat (buflen ocl)) cs"
proof (induction fuel arbitrary: offs cnt)
  case 0
  then show ?case by simp
next
  case (Suc fuel)
  show ?case
  proof (cases "cnt = 0")
    case True
    then show ?thesis by (simp add: chunk_bytes_def)
  next
    case False
    define rl where "rl = next_runlen ocl offs cnt"
    define r where "r = unat (offs mod bufalign ocl)"
    define BL where "BL = unat (buflen ocl)"
    have b: "0 < unat rl" "unat rl \<le> unat cnt"
      using next_runlen_bounds [OF assms False, of offs] by (simp_all add: rl_def)
    have m: "unat rl = min (unat cnt) (BL - r)"
      unfolding rl_def BL_def r_def using assms Suc.prems(1) by (rule next_runlen_min)
    have rBL: "r < BL"
      unfolding r_def BL_def using assms by (rule unat_offs_mod)
    have le: "rl \<le> cnt" using b by (simp add: word_le_nat_alt)
    have u: "unat (cnt - rl) = unat cnt - unat rl"
      using b by (simp add: unat_sub word_le_nat_alt)
    have r': "unat ((offs + rl) mod bufalign ocl) < BL"
      unfolding BL_def using assms by (rule unat_offs_mod)
    have lim: "unat cnt + r < 4294967296" using Suc.prems(1) by (simp add: r_def)
    have BL32: "BL < 4294967296" using unsigned_less [of "buflen ocl"] by (simp add: BL_def)
    have "unat (cnt - rl) + unat ((offs + rl) mod bufalign ocl) < 4294967296"
    proof (cases "unat cnt \<le> BL - r")
      case True
      then have "unat rl = unat cnt" using m by simp
      then have "unat (cnt - rl) = 0" using u by simp
      then show ?thesis using r' BL32 by linarith
    next
      case False
      then have "unat rl = BL - r" using m by simp
      then have "unat (cnt - rl) = unat cnt - (BL - r)" using u by simp
      then have "unat (cnt - rl) + unat ((offs + rl) mod bufalign ocl) < unat cnt + r"
        using False r' rBL by linarith
      then show ?thesis using lim by linarith
    qed
    then have nowrap: "unat (cnt - rl) + unat ((offs + rl) mod bufalign ocl) < 2 ^ 32"
      by simp
    have less: "unat (cnt - rl) < fuel" using u b Suc.prems(2) by simp
    obtain cs where cs: "write_chunks fuel ocl (offs + rl) (cnt - rl) = Some cs"
      "chunked ocl (offs + rl) (cnt - rl) cs"
      "concat (map (\<lambda>(s, l). chunk_bytes s l) cs) = chunk_bytes (offs + rl) (cnt - rl)"
      "list_all (\<lambda>(s, l). unat (s mod bufalign ocl) + unat l \<le> unat (buflen ocl)) cs"
      using Suc.IH [OF nowrap less] by blast
    have w: "write_chunks (Suc fuel) ocl offs cnt = Some ((offs, rl) # cs)"
      using False cs(1) by (simp add: rl_def)
    have fit: "unat (offs mod bufalign ocl) + unat rl \<le> unat (buflen ocl)"
      using m rBL unfolding r_def BL_def by simp
    have c1: "chunked ocl offs cnt ((offs, rl) # cs)"
      using False m cs(2) by (simp add: r_def BL_def)
    have c2: "concat (map (\<lambda>(s, l). chunk_bytes s l) ((offs, rl) # cs)) = chunk_bytes offs cnt"
      using cs(3) chunk_bytes_split [OF le] by simp
    have c3: "list_all (\<lambda>(s, l). unat (s mod bufalign ocl) + unat l \<le> unat (buflen ocl))
        ((offs, rl) # cs)"
      using fit cs(4) by simp
    show ?thesis using w c1 c2 c3 by blast
  qed
qed

lemma ocl_write_loop_chunks:
  assumes "buflen ocl \<noteq> 0" and "buflen ocl mod 4 = 0"
    and "bufalign ocl \<noteq> 0" and "bufalign ocl \<le> buflen ocl"
  shows "length dcc = unat (buflen ocl div 4 + 3) \<Longrightarrow>
    ocl_write_loop fuel K J ocl dcc buf offs cnt e = Some (Inr (ERROR_OK, e')) \<Longrightarrow>
    \<exists>cs. write_chunks fuel ocl offs cnt = Some cs \<and>
      map (take 2) (sent (trace e')) =
        map (take 2) (sent (trace e)) @ map (\<lambda>(s, l). [OCL_FLASH_BLOCK K OR l, s]) cs"
proof (induction fuel arbitrary: dcc buf offs cnt e)
  case 0
  then show ?case by simp
next
  case (Suc fuel)
  show ?case
  proof (cases "cnt = 0")
    case True
    then show ?thesis using Suc.prems(2) by simp
  next
    case False
    define rl where "rl = next_runlen ocl offs cnt"
    note room = pack_chunk_room [OF staging_room [OF assms Suc.prems(1), of offs cnt], of K buf]
    show ?thesis
    proof (cases "pack_chunk K ocl dcc buf offs (next_runlen ocl offs cnt)")
      case (Inl f)
      then show ?thesis using False Suc.prems(2) by simp
    next
      case (Inr s)
      then have len: "length ((dcc_buffer s)[0 := d]) = unat (buflen ocl div 4 + 3)" for d
        using room Suc.prems(1) by simp
      have hd: "take 2 (dcc_block s) = [OCL_FLASH_BLOCK K OR rl, offs]"
        using room Inr by (simp add: rl_def)
      from ocl_write_loop_round [OF False Inr, of fuel J e] show ?thesis
      proof (elim disjE exE conjE)
        fix r e1
        assume "ocl_write_loop (Suc fuel) K J ocl dcc buf offs cnt e = Some (Inr (r, e1))"
          and "r \<noteq> ERROR_OK"
        then show ?thesis using Suc.prems(2) by (simp del: ocl_write_loop.simps)
      next
        fix d e1
        assume eq: "ocl_write_loop (Suc fuel) K J ocl dcc buf offs cnt e =
                  ocl_write_loop fuel K J ocl ((dcc_buffer s)[0 := d]) (buffer s)
                    (offs + next_runlen ocl offs cnt) (cnt - next_runlen ocl offs cnt) e1"
          and tr: "sent (trace e1) = sent (trace e) @ [dcc_block s]"
        have "ocl_write_loop fuel K J ocl ((dcc_buffer s)[0 := d]) (buffer s)
                (offs + rl) (cnt - rl) e1 = Some (Inr (ERROR_OK, e'))"
          using Suc.prems(2) unfolding eq rl_def .
        from Suc.IH [OF len this]
        obtain cs where cs: "write_chunks fuel ocl (offs + rl) (cnt - rl) = Some cs"
          "map (take 2) (sent (trace e')) =
             map (take 2) (sent (trace e1)) @ map (\<lambda>(s, l). [OCL_FLASH_BLOCK K OR l, s]) cs"
          by blast
        have w: "write_chunks (Suc fuel) ocl offs cnt = Some ((offs, rl) # cs)"
          using False cs(1) by (simp add: rl_def)
        have "map (take 2) (sent (trace e')) =
            map (take 2) (sent (trace e)) @
            map (\<lambda>(s, l). [OCL_FLASH_BLOCK K OR l, s]) ((offs, rl) # cs)"
          unfolding cs(2) tr using hd by simp
        then show ?thesis using w by blast
      qed
    qed
  qed
qed

subsection \<open>Runs of the driver\<close>

lemma probed_bank_priv:
  "driver_priv probed_bank = \<lparr>buflen = 0x1000, bufalign = 0x1000\<rparr>"
  "target probed_bank = TARGET_RUNNING"
  by (simp_all add: probed_bank_def)

lemma write_scenario:
  "ocl_write 7 openocd_h loader probed_bank [0x11, 0x22, 0x33, 0x44, 0x55, 0x66] 0x0FFE 6
     \<lparr>world = [0x0ACD0000, 0x0ACD0000], trace = []\<rparr> =
   Some (Inr (ERROR_OK,
     \<lparr>world = [],
      trace = [Send [0x0CFB0002, 0x0FFE, 0x2211FFFF, 0xE31132F3], Handshake 1 1000, Receive,
               Send [0x0CFB0004, 0x1000, 0x66554433, 0xA755893F], Handshake 1 1000, Receive]\<rparr>))"
  by code_simp

lemma chunks_scenario:
  "write_chunks 7 \<lparr>buflen = 0x1000, bufalign = 0x1000\<rparr> 0x0FFE 6 =
     Some [(0x0FFE, 2), (0x1000, 4)]"
  by code_simp

lemma pack_chunk_no_read:
  assumes "nat (sint runlen) = 0"
  shows "pack_chunk K ocl dcc buf offs runlen =
         map_sum id (\<lambda>s. s\<lparr>buffer := buf\<rparr>) (pack_chunk K ocl dcc [] offs runlen)"
  by (simp add: pack_chunk_def pack_payload_def store_at_def store_dcc_def xor_next_def assms
      seq_def)

lemma wrap_pack0:
  "pack_chunk openocd_h \<lparr>buflen = 4, bufalign = 4\<rparr> (replicate 4 0) [] 1 0xFFFFFFFF =
   Inr \<lparr>dcc_buffer = [0xFFFFFFFF, 1, 0xFFFFFFFF, 0x3EFF32F3], dcc_bufptr = 4, buffer = [],
        byteofs = 1, chksum = 0x3EFF32F3\<rparr>"
  by code_simp

lemma wrap_pack:
  "pack_chunk openocd_h \<lparr>buflen = 4, bufalign = 4\<rparr> (replicate 4 0) buf 1 0xFFFFFFFF =
   Inr \<lparr>dcc_buffer = [0xFFFFFFFF, 1, 0xFFFFFFFF, 0x3EFF32F3], dcc_bufptr = 4, buffer = buf,
        byteofs = 1, chksum = 0x3EFF32F3\<rparr>"
proof -
  have h: "nat (sint (0xFFFFFFFF :: u32)) = 0" by simp
  show ?thesis
    by (subst pack_chunk_no_read [OF h]) (simp add: wrap_pack0)
qed

lemma wrap_write:
  "ocl_write 2 openocd_h loader
     (unprobed_bank\<lparr>num_sectors := 1, driver_priv := \<lparr>buflen = 4, bufalign = 4\<rparr>\<rparr>)
     (replicate 4294967295 0) 1 0xFFFFFFFF \<lparr>world = [0x0ACD0000], trace = []\<rparr> =
   Some (Inr (ERROR_OK,
     \<lparr>world = [],
      trace = [Send [0xFFFFFFFF, 1, 0xFFFFFFFF, 0x3EFF32F3], Handshake 1 1000, Receive]\<rparr>))"
proof -
  define e1 :: "u32 list env" where
    "e1 = \<lparr>world = [0x0ACD0000], trace = [Send [0xFFFFFFFF, 1, 0xFFFFFFFF, 0x3EFF32F3]]\<rparr>"
  define e2 :: "u32 list env" where
    "e2 = \<lparr>world = [0x0ACD0000],
            trace = [Send [0xFFFFFFFF, 1, 0xFFFFFFFF, 0x3EFF32F3], Handshake 1 1000]\<rparr>"
  define e3 :: "u32 list env" where
    "e3 = \<lparr>world = [],
            trace = [Send [0xFFFFFFFF, 1, 0xFFFFFFFF, 0x3EFF32F3], Handshake 1 1000, Receive]\<rparr>"
  have rl: "next_runlen \<lparr>buflen = 4, bufalign = 4\<rparr> 1 0xFFFFFFFF = 0xFFFFFFFF"
    by (simp add: next_runlen_def)
  have len: "unat (4 div 4 + 3 :: u32) = 4" by simp
  have blk: "dcc_block \<lparr>dcc_buffer = [0xFFFFFFFF, 1, 0xFFFFFFFF, 0x3EFF32F3], dcc_bufptr = 4,
      buffer = b, byteofs = 1, chksum = 0x3EFF32F3\<rparr> = [0xFFFFFFFF, 1, 0xFFFFFFFF, 0x3EFF32F3]"
    for b :: "u8 list"
    by (simp add: dcc_block_def)
  have k: "OCL_CMD_DONE openocd_h = 0x0ACD0000" "EICE_COMM_CTRL_WBIT openocd_h = 1"
    by (simp_all add: openocd_h_def)
  have s1: "embeddedice_send loader [0xFFFFFFFF, 1, 0xFFFFFFFF, 0x3EFF32F3]
      \<lparr>world = [0x0ACD0000], trace = []\<rparr> = (ERROR_OK, e1)"
    by (simp add: embeddedice_send_def loader_def e1_def)
  have s2: "embeddedice_handshake loader 1 1000 e1 = (ERROR_OK, e2)"
    by (simp add: embeddedice_handshake_def loader_def e1_def e2_def)
  have s3: "embeddedice_receive loader e2 = (ERROR_OK, 0x0ACD0000, e3)"
    by (simp add: embeddedice_receive_def loader_def e2_def e3_def)
  have "ocl_write_loop (Suc (Suc 0)) openocd_h loader \<lparr>buflen = 4, bufalign = 4\<rparr>
      (replicate 4 0) (replicate 4294967295 0) 1 0xFFFFFFFF \<lparr>world = [0x0ACD0000], trace = []\<rparr> =
      Some (Inr (ERROR_OK, e3))"
    by (simp add: rl wrap_pack dcc_block_def k s1 s2 s3)
  then show ?thesis
    unfolding numeral_2_eq_2
    by (simp add: ocl_write_def unprobed_bank_def len e3_def)
qed

subsection \<open>Write: the chunk sequence\<close>

text \<open>
  The chunks of a write whose count does not make the test of the loop wrap around. On a
  probed bank (\<open>buflen\<close> and \<open>bufalign\<close> are non-zero, \<open>buflen\<close> is a multiple of 4
  and \<open>bufalign\<close> is at most \<open>buflen\<close>), for every offset and every count such that the
  count plus the offset modulo \<open>bufalign\<close> is below \<open>2^32\<close>, the loop has a chunk
  sequence \<open>cs\<close>: it obeys the chunk rule (each length is the lesser
  of what remains and \<open>buflen\<close> minus the offset modulo \<open>bufalign\<close>, each chunk starts
  where the one before stops); the addresses of its bytes, chunk after chunk, are
  \<open>offs, offs + 1, \<dots>\<close>, each once and in this order, \<open>cnt\<close> of them; no chunk has its
  start modulo \<open>bufalign\<close> plus its length above \<open>buflen\<close>; and the blocks of a write that
  returns \<open>ERROR_OK\<close> carry exactly these chunks in their header words.
\<close>

theorem ocl_write_chunks:
  assumes "buflen (driver_priv bank) \<noteq> 0" and "buflen (driver_priv bank) mod 4 = 0"
    and "bufalign (driver_priv bank) \<noteq> 0"
    and "bufalign (driver_priv bank) \<le> buflen (driver_priv bank)"
    and "unat cnt + unat (offs mod bufalign (driver_priv bank)) < 2 ^ 32"
    and "unat cnt < fuel"
  shows "\<exists>cs. write_chunks fuel (driver_priv bank) offs cnt = Some cs \<and>
      chunked (driver_priv bank) offs cnt cs \<and>
      concat (map (\<lambda>(s, l). chunk_bytes s l) cs) = chunk_bytes offs cnt \<and>
      list_all (\<lambda>(s, l). unat (s mod bufalign (driver_priv bank)) + unat l
                         \<le> unat (buflen (driver_priv bank))) cs \<and>
      (\<forall>e'. ocl_write fuel K J bank buf offs cnt e = Some (Inr (ERROR_OK, e')) \<longrightarrow>
         map (take 2) (sent (trace e')) =
           map (take 2) (sent (trace e)) @ map (\<lambda>(s, l). [OCL_FLASH_BLOCK K OR l, s]) cs)"
proof -
  obtain cs where cs: "write_chunks fuel (driver_priv bank) offs cnt = Some cs"
      "chunked (driver_priv bank) offs cnt cs"
      "concat (map (\<lambda>(s, l). chunk_bytes s l) cs) = chunk_bytes offs cnt"
      "list_all (\<lambda>(s, l). unat (s mod bufalign (driver_priv bank)) + unat l
                         \<le> unat (buflen (driver_priv bank))) cs"
    using write_chunks_cover_aux [OF assms(3,4,5,6)] by blast
  have "map (take 2) (sent (trace e')) =
           map (take 2) (sent (trace e)) @ map (\<lambda>(s, l). [OCL_FLASH_BLOCK K OR l, s]) cs"
    if "ocl_write fuel K J bank buf offs cnt e = Some (Inr (ERROR_OK, e'))" for e'
  proof -
    have "ocl_write_loop fuel K J (driver_priv bank)
             (replicate (unat (buflen (driver_priv bank) div 4 + 3)) 0) buf offs cnt e =
          Some (Inr (ERROR_OK, e'))"
      using that assms(1,3) by (simp add: ocl_write_def split: if_splits)
    from ocl_write_loop_chunks [OF assms(1-4) _ this] cs(1) show ?thesis by auto
  qed
  then show ?thesis using cs by blast
qed

text \<open>
  A write of 6 bytes at 0x0FFE with a buffer of 0x1000 aligned to 0x1000: a chunk of 2 bytes
  and a chunk of 4 bytes.
\<close>

theorem ocl_write_chunks_witness:
  "write_chunks 7 (driver_priv probed_bank) 0x0FFE 6 = Some [(0x0FFE, 2), (0x1000, 4)] \<and>
   chunked (driver_priv probed_bank) 0x0FFE 6 [(0x0FFE, 2), (0x1000, 4)] \<and>
   chunk_bytes 0x0FFE 2 @ chunk_bytes 0x1000 4 = chunk_bytes 0x0FFE 6 \<and>
   chunk_bytes 0x0FFE 6 = [0x0FFE, 0x0FFF, 0x1000, 0x1001, 0x1002, 0x1003] \<and>
   ocl_write 7 openocd_h loader probed_bank [0x11, 0x22, 0x33, 0x44, 0x55, 0x66] 0x0FFE 6
     \<lparr>world = [0x0ACD0000, 0x0ACD0000], trace = []\<rparr> =
   Some (Inr (ERROR_OK,
     \<lparr>world = [],
      trace = [Send [0x0CFB0002, 0x0FFE, 0x2211FFFF, 0xE31132F3], Handshake 1 1000, Receive,
               Send [0x0CFB0004, 0x1000, 0x66554433, 0xA755893F], Handshake 1 1000, Receive]\<rparr>))"
proof -
  have h: "buflen (driver_priv probed_bank) \<noteq> 0" "buflen (driver_priv probed_bank) mod 4 = 0"
    "bufalign (driver_priv probed_bank) \<noteq> 0"
    "bufalign (driver_priv probed_bank) \<le> buflen (driver_priv probed_bank)"
    "unat (6 :: u32) + unat (0x0FFE mod bufalign (driver_priv probed_bank)) < 2 ^ 32"
    "unat (6 :: u32) < 7"
    by (simp_all add: probed_bank_priv)
  obtain cs where cs: "write_chunks 7 (driver_priv probed_bank) 0x0FFE 6 = Some cs"
    "chunked (driver_priv probed_bank) 0x0FFE 6 cs"
    "concat (map (\<lambda>(s, l). chunk_bytes s l) cs) = chunk_bytes 0x0FFE 6"
    using ocl_write_chunks [OF h] by blast
  have w: "write_chunks 7 (driver_priv probed_bank) 0x0FFE 6 = Some [(0x0FFE, 2), (0x1000, 4)]"
    unfolding probed_bank_priv by (rule chunks_scenario)
  then have e: "cs = [(0x0FFE, 2), (0x1000, 4)]" using cs(1) by simp
  have b: "chunk_bytes 0x0FFE 6 = [0x0FFE, 0x0FFF, 0x1000, 0x1001, 0x1002, 0x1003]"
    by code_simp
  show ?thesis
    using w cs(2,3) b write_scenario unfolding e by simp
qed

text \<open>
  C2 fails on the code where \<^verbatim>\<open>count + (offset % ocl->bufalign)\<close> wraps around. The loop
  caps a chunk at \<open>buflen\<close> minus the offset modulo \<open>bufalign\<close> when that sum exceeds
  \<open>buflen\<close>, and the sum is one of u32. For a count of \<open>2^32 - 1\<close> at offset 1 with a
  buffer of 4 aligned to 4 it is 0: the cap is missed and the whole count is taken as one
  chunk, whose length is not the lesser of the remaining bytes and \<open>buflen - 1\<close> and whose
  start modulo \<open>bufalign\<close> plus length exceeds \<open>buflen\<close>. As the \<^verbatim>\<open>int\<close> \<open>runlen\<close> the
  length is -1: it overwrites the opcode of the header word, no byte of the payload is
  packed, and the write returns \<open>ERROR_OK\<close> after this one block.
\<close>

theorem ocl_write_chunks_overflow:
  "length (replicate 4294967295 (0 :: u8)) = unat (0xFFFFFFFF :: u32) \<and>
   write_chunks 2 \<lparr>buflen = 4, bufalign = 4\<rparr> 1 0xFFFFFFFF = Some [(1, 0xFFFFFFFF)] \<and>
   \<not> chunked \<lparr>buflen = 4, bufalign = 4\<rparr> 1 0xFFFFFFFF [(1, 0xFFFFFFFF)] \<and>
   unat (4 :: u32) < unat ((1 :: u32) mod 4) + unat (0xFFFFFFFF :: u32) \<and>
   ocl_write 2 openocd_h loader
     (unprobed_bank\<lparr>num_sectors := 1, driver_priv := \<lparr>buflen = 4, bufalign = 4\<rparr>\<rparr>)
     (replicate 4294967295 0) 1 0xFFFFFFFF \<lparr>world = [0x0ACD0000], trace = []\<rparr> =
   Some (Inr (ERROR_OK,
     \<lparr>world = [],
      trace = [Send [0xFFFFFFFF, 1, 0xFFFFFFFF, 0x3EFF32F3], Handshake 1 1000, Receive]\<rparr>))"
proof -
  have "write_chunks 2 \<lparr>buflen = 4, bufalign = 4\<rparr> 1 0xFFFFFFFF = Some [(1, 0xFFFFFFFF)]"
    by code_simp
  moreover have "\<not> chunked \<lparr>buflen = 4, bufalign = 4\<rparr> 1 0xFFFFFFFF [(1, 0xFFFFFFFF)]"
    by simp
  ultimately show ?thesis using wrap_write by simp
qed

subsection \<open>Write: the staging buffer\<close>

text \<open>
  C9. On a bank with the invariants of a successful probe (\<open>buflen\<close> is non-zero and a
  multiple of 4, \<open>bufalign\<close> is non-zero and at most \<open>buflen\<close>), no run of
  \<^verbatim>\<open>ocl_write\<close> ends in an access outside the staging buffer of \<open>buflen / 4 + 3\<close> words:
  the stores of the header words, of the packed words and of the checksum are all within it,
  for every payload, offset, count and transport.
\<close>

theorem ocl_write_in_bounds:
  assumes "buflen (driver_priv bank) \<noteq> 0" and "buflen (driver_priv bank) mod 4 = 0"
    and "bufalign (driver_priv bank) \<noteq> 0"
    and "bufalign (driver_priv bank) \<le> buflen (driver_priv bank)"
  shows "ocl_write fuel K J bank buf offs cnt e \<noteq> Some (Inl DCC_BUFFER_OVERRUN)"
proof -
  have "ocl_write_loop fuel K J (driver_priv bank)
          (replicate (unat (buflen (driver_priv bank) div 4 + 3)) 0) buf offs cnt e \<noteq>
        Some (Inl DCC_BUFFER_OVERRUN)"
    using assms by (intro ocl_write_loop_in_bounds) simp_all
  then show ?thesis by (simp add: ocl_write_def)
qed

text \<open>The write of 6 bytes at 0x0FFE stays in its staging buffer and returns \<open>ERROR_OK\<close>.\<close>

theorem ocl_write_in_bounds_witness:
  "buflen (driver_priv probed_bank) \<noteq> 0 \<and> buflen (driver_priv probed_bank) mod 4 = 0 \<and>
   bufalign (driver_priv probed_bank) \<noteq> 0 \<and>
   bufalign (driver_priv probed_bank) \<le> buflen (driver_priv probed_bank) \<and>
   ocl_write 7 openocd_h loader probed_bank [0x11, 0x22, 0x33, 0x44, 0x55, 0x66] 0x0FFE 6
     \<lparr>world = [0x0ACD0000, 0x0ACD0000], trace = []\<rparr> \<noteq> Some (Inl DCC_BUFFER_OVERRUN) \<and>
   ocl_write 7 openocd_h loader probed_bank [0x11, 0x22, 0x33, 0x44, 0x55, 0x66] 0x0FFE 6
     \<lparr>world = [0x0ACD0000, 0x0ACD0000], trace = []\<rparr> =
   Some (Inr (ERROR_OK,
     \<lparr>world = [],
      trace = [Send [0x0CFB0002, 0x0FFE, 0x2211FFFF, 0xE31132F3], Handshake 1 1000, Receive,
               Send [0x0CFB0004, 0x1000, 0x66554433, 0xA755893F], Handshake 1 1000, Receive]\<rparr>))"
proof -
  have h: "buflen (driver_priv probed_bank) \<noteq> 0" "buflen (driver_priv probed_bank) mod 4 = 0"
    "bufalign (driver_priv probed_bank) \<noteq> 0"
    "bufalign (driver_priv probed_bank) \<le> buflen (driver_priv probed_bank)"
    by (simp_all add: probed_bank_priv)
  show ?thesis
    using h ocl_write_in_bounds [OF h, of 7 openocd_h loader "[0x11, 0x22, 0x33, 0x44, 0x55, 0x66]"
        "0x0FFE" 6 "\<lparr>world = [0x0ACD0000, 0x0ACD0000], trace = []\<rparr>"]
      write_scenario
    by blast
qed

text \<open>
  Without the invariants the fault is there: with a buffer length of 6, which a probe
  rejects and leaves in the bank, a write of 6 bytes stores its checksum behind the 4 words
  of the staging buffer.
\<close>

lemma ocl_write_overrun:
  "ocl_write 7 openocd_h loader
     (unprobed_bank\<lparr>num_sectors := 16, driver_priv := \<lparr>buflen = 6, bufalign = 2\<rparr>\<rparr>)
     [0x11, 0x22, 0x33, 0x44, 0x55, 0x66] 0 6 \<lparr>world = [0x0ACD0000], trace = []\<rparr> =
   Some (Inl DCC_BUFFER_OVERRUN)"
  by code_simp

subsection \<open>Write: termination\<close>

text \<open>
  C10. With \<open>bufalign\<close> at most \<open>buflen\<close>, \<^verbatim>\<open>ocl_write\<close> returns for every payload,
  offset, count and transport: fuel above the count is enough, since in every round the chunk
  length is at least 1 and the remaining count gets smaller.
\<close>

theorem ocl_write_terminates:
  assumes "bufalign (driver_priv bank) \<le> buflen (driver_priv bank)"
  shows "(unat cnt < fuel \<longrightarrow> (\<exists>r. ocl_write fuel K J bank buf offs cnt e = Some r)) \<and>
    (bufalign (driver_priv bank) \<noteq> 0 \<and> cnt \<noteq> 0 \<longrightarrow>
       1 \<le> unat (next_runlen (driver_priv bank) offs cnt) \<and>
       unat (cnt - next_runlen (driver_priv bank) offs cnt) < unat cnt)"
proof (intro conjI impI)
  assume f: "unat cnt < fuel"
  show "\<exists>r. ocl_write fuel K J bank buf offs cnt e = Some r"
  proof (cases "buflen (driver_priv bank) = 0 \<or> bufalign (driver_priv bank) = 0 \<or>
      target bank \<noteq> TARGET_RUNNING")
    case True
    then show ?thesis by (auto simp: ocl_write_def)
  next
    case False
    then have "ocl_write fuel K J bank buf offs cnt e =
      ocl_write_loop fuel K J (driver_priv bank)
             (replicate (unat (buflen (driver_priv bank) div 4 + 3)) 0) buf offs cnt e"
      by (simp add: ocl_write_def)
    then show ?thesis
      using ocl_write_loop_terminates [OF _ assms f] False by simp
  qed
next
  assume a: "bufalign (driver_priv bank) \<noteq> 0 \<and> cnt \<noteq> 0"
  define rl where "rl = next_runlen (driver_priv bank) offs cnt"
  have b: "0 < unat rl" "unat rl \<le> unat cnt"
    using next_runlen_bounds [OF _ assms, of cnt offs] a by (simp_all add: rl_def)
  then have "unat (cnt - rl) = unat cnt - unat rl"
    by (simp add: unat_sub word_le_nat_alt)
  then show "1 \<le> unat (next_runlen (driver_priv bank) offs cnt)"
    "unat (cnt - next_runlen (driver_priv bank) offs cnt) < unat cnt"
    using b unfolding rl_def by simp_all
qed

text \<open>The write of 6 bytes at 0x0FFE returns with fuel 7; its first chunk has 2 bytes.\<close>

theorem ocl_write_terminates_witness:
  "bufalign (driver_priv probed_bank) \<le> buflen (driver_priv probed_bank) \<and>
   unat (6 :: u32) < 7 \<and>
   (\<exists>r. ocl_write 7 openocd_h loader probed_bank [0x11, 0x22, 0x33, 0x44, 0x55, 0x66] 0x0FFE 6
     \<lparr>world = [0x0ACD0000, 0x0ACD0000], trace = []\<rparr> = Some r) \<and>
   next_runlen (driver_priv probed_bank) 0x0FFE 6 = 2 \<and>
   1 \<le> unat (next_runlen (driver_priv probed_bank) 0x0FFE 6) \<and>
   unat (6 - next_runlen (driver_priv probed_bank) 0x0FFE 6) < unat (6 :: u32)"
proof -
  have h: "bufalign (driver_priv probed_bank) \<le> buflen (driver_priv probed_bank)"
    by (simp add: probed_bank_priv)
  have n: "next_runlen (driver_priv probed_bank) 0x0FFE 6 = 2"
    by (simp add: probed_bank_priv next_runlen_def)
  have g: "bufalign (driver_priv probed_bank) \<noteq> 0 \<and> (6 :: u32) \<noteq> 0" "unat (6 :: u32) < 7"
    by (simp_all add: probed_bank_priv)
  show ?thesis
    using h n g ocl_write_terminates [OF h, of 6 7 openocd_h loader
        "[0x11, 0x22, 0x33, 0x44, 0x55, 0x66]" "0x0FFE"
        "\<lparr>world = [0x0ACD0000, 0x0ACD0000], trace = []\<rparr>"]
    by blast
qed

end
